theory Spec2Isabelle
  imports Main
begin

section \<open>Python strings\<close>

text \<open>
  A Python \<^verbatim>\<open>str\<close> is a sequence of Unicode code points. Isabelle's \<open>char\<close> has eight
  bits only, so a code point is a natural number here and a string is a list of them.
  ASCII literals of the source are written \<open>ascii ''...''\<close>.
\<close>

type_synonym ustr = "nat list"

definition ascii :: "string \<Rightarrow> ustr" where
  "ascii s = map of_char s"

text \<open>
  \<^verbatim>\<open>str.isspace\<close> on one code point; \<^verbatim>\<open>str.strip()\<close> and the regular expression
  class \<^verbatim>\<open>\s\<close> (on \<^verbatim>\<open>str\<close> patterns) use the same set.
\<close>

definition isspace :: "nat \<Rightarrow> bool" where
  "isspace c \<longleftrightarrow>
     (0x09 \<le> c \<and> c \<le> 0x0D) \<or> (0x1C \<le> c \<and> c \<le> 0x20) \<or> c = 0x85 \<or> c = 0xA0 \<or>
     c = 0x1680 \<or> (0x2000 \<le> c \<and> c \<le> 0x200A) \<or> c = 0x2028 \<or> c = 0x2029 \<or>
     c = 0x202F \<or> c = 0x205F \<or> c = 0x3000"

definition lstrip :: "ustr \<Rightarrow> ustr" where
  "lstrip s = dropWhile isspace s"

definition rstrip :: "ustr \<Rightarrow> ustr" where
  "rstrip s = rev (dropWhile isspace (rev s))"

definition strip :: "ustr \<Rightarrow> ustr" where
  "strip s = lstrip (rstrip s)"

text \<open>\<^verbatim>\<open>s.strip(chars)\<close> and \<^verbatim>\<open>s.rstrip(chars)\<close> for a one-character argument.\<close>

definition rstrip_chr :: "nat \<Rightarrow> ustr \<Rightarrow> ustr" where
  "rstrip_chr c s = rev (dropWhile (\<lambda>x. x = c) (rev s))"

definition strip_chr :: "nat \<Rightarrow> ustr \<Rightarrow> ustr" where
  "strip_chr c s = dropWhile (\<lambda>x. x = c) (rstrip_chr c s)"

definition startswith :: "ustr \<Rightarrow> ustr \<Rightarrow> bool" where
  "startswith s p \<longleftrightarrow> take (length p) s = p"

definition endswith :: "ustr \<Rightarrow> ustr \<Rightarrow> bool" where
  "endswith s p \<longleftrightarrow> length p \<le> length s \<and> drop (length s - length p) s = p"

text \<open>\<^verbatim>\<open>s.replace(old, new)\<close> where \<open>old\<close> and \<open>new\<close> are one character each.\<close>

definition replace_chr :: "nat \<Rightarrow> nat \<Rightarrow> ustr \<Rightarrow> ustr" where
  "replace_chr old new s = map (\<lambda>c. if c = old then new else c) s"

section \<open>Text repair\<close>

text \<open>
  \<^verbatim>\<open>text.encode("latin1")\<close> raises when a code point is above 255; otherwise byte \<open>i\<close> is
  code point \<open>i\<close>.
\<close>

definition encode_latin1 :: "ustr \<Rightarrow> nat list option" where
  "encode_latin1 t = (if list_all (\<lambda>c. c < 256) t then Some t else None)"

definition cont :: "nat \<Rightarrow> bool" where
  "cont b \<longleftrightarrow> 0x80 \<le> b \<and> b \<le> 0xBF"

text \<open>
  \<^verbatim>\<open>bytes.decode("utf-8")\<close>, strict: well-formed sequences only (no overlong forms, no
  surrogates, nothing above U+10FFFF); \<open>None\<close> is \<^verbatim>\<open>UnicodeDecodeError\<close>.
\<close>

fun decode_utf8 :: "nat list \<Rightarrow> ustr option" where
  "decode_utf8 [] = Some []"
| "decode_utf8 (b # bs) =
     (if b < 0x80 then map_option (Cons b) (decode_utf8 bs)
      else if 0xC2 \<le> b \<and> b \<le> 0xDF then
        (case bs of
           b1 # r \<Rightarrow>
             if cont b1
             then map_option (Cons ((b - 0xC0) * 64 + (b1 - 0x80))) (decode_utf8 r)
             else None
         | _ \<Rightarrow> None)
      else if 0xE0 \<le> b \<and> b \<le> 0xEF then
        (case bs of
           b1 # b2 # r \<Rightarrow>
             if cont b1 \<and> cont b2 \<and> (b = 0xE0 \<longrightarrow> 0xA0 \<le> b1) \<and> (b = 0xED \<longrightarrow> b1 \<le> 0x9F)
             then map_option
                    (Cons ((b - 0xE0) * 4096 + (b1 - 0x80) * 64 + (b2 - 0x80)))
                    (decode_utf8 r)
             else None
         | _ \<Rightarrow> None)
      else if 0xF0 \<le> b \<and> b \<le> 0xF4 then
        (case bs of
           b1 # b2 # b3 # r \<Rightarrow>
             if cont b1 \<and> cont b2 \<and> cont b3 \<and> (b = 0xF0 \<longrightarrow> 0x90 \<le> b1) \<and>
                (b = 0xF4 \<longrightarrow> b1 \<le> 0x8F)
             then map_option
                    (Cons ((b - 0xF0) * 262144 + (b1 - 0x80) * 4096 + (b2 - 0x80) * 64 +
                           (b3 - 0x80)))
                    (decode_utf8 r)
             else None
         | _ \<Rightarrow> None)
      else None)"

text \<open>
  \<^verbatim>\<open>_fix_mojibake\<close>: re-read the text's Latin-1 bytes as UTF-8; any exception gives the
  text back.
\<close>

definition fix_mojibake :: "ustr \<Rightarrow> ustr" where
  "fix_mojibake text =
     (if text = [] then []
      else case encode_latin1 text of
             None \<Rightarrow> text
           | Some bs \<Rightarrow> (case decode_utf8 bs of None \<Rightarrow> text | Some u \<Rightarrow> u))"

text \<open>\<^verbatim>\<open>_replace_smart_quotes\<close>: four chained \<^verbatim>\<open>replace\<close> calls, in the source's order.\<close>

definition replace_smart_quotes :: "ustr \<Rightarrow> ustr" where
  "replace_smart_quotes text =
     (if text = [] then []
      else replace_chr 0x201D 0x22
             (replace_chr 0x201C 0x22
               (replace_chr 0x2018 0x27
                 (replace_chr 0x2019 0x27 text))))"

text \<open>
  \<^verbatim>\<open>_postprocess_text\<close>. The mode is a string; a false (empty) mode is replaced by
  \<^verbatim>\<open>"fix_mojibake"\<close>, the mode is stripped, and an unknown mode repairs the encoding.
\<close>

definition postprocess_text :: "ustr \<Rightarrow> ustr \<Rightarrow> ustr" where
  "postprocess_text text mode =
     (let t = text;
          m = strip (if mode = [] then ascii ''fix_mojibake'' else mode)
      in if m = ascii ''none'' then t
         else if m = ascii ''fix_mojibake'' then fix_mojibake t
         else if m = ascii ''ascii_quotes'' then replace_smart_quotes t
         else if m = ascii ''fix_mojibake+ascii_quotes'' then replace_smart_quotes (fix_mojibake t)
         else fix_mojibake t)"

text \<open>What the spec calls straightening, one code point at a time.\<close>

definition straighten :: "nat \<Rightarrow> nat" where
  "straighten c =
     (if c = 0x2018 \<or> c = 0x2019 then 0x27
      else if c = 0x201C \<or> c = 0x201D then 0x22
      else c)"

definition curly :: "nat \<Rightarrow> bool" where
  "curly c \<longleftrightarrow> c = 0x2018 \<or> c = 0x2019 \<or> c = 0x201C \<or> c = 0x201D"

section \<open>Regular expressions of the source\<close>

text \<open>
  Matching one pattern character under \<^verbatim>\<open>re.IGNORECASE\<close> on a \<^verbatim>\<open>str\<close> pattern. For the
  characters of the source's patterns (lower-case ASCII letters and punctuation) a text
  character matches when it is the pattern character, its upper-case form, or one of the
  characters the regular expression engine folds onto it: U+0130 and U+0131 onto \<open>i\<close>,
  U+212A onto \<open>k\<close>, U+017F onto \<open>s\<close>.
\<close>

definition imatch :: "nat \<Rightarrow> nat \<Rightarrow> bool" where
  "imatch p c \<longleftrightarrow>
     c = p \<or> (0x61 \<le> p \<and> p \<le> 0x7A \<and> c + 0x20 = p) \<or>
     (p = 0x69 \<and> (c = 0x130 \<or> c = 0x131)) \<or> (p = 0x6B \<and> c = 0x212A) \<or>
     (p = 0x73 \<and> c = 0x17F)"

definition istartswith :: "ustr \<Rightarrow> ustr \<Rightarrow> bool" where
  "istartswith s p \<longleftrightarrow> length p \<le> length s \<and> list_all2 imatch p (take (length p) s)"

text \<open>
  The first case-insensitive occurrence of a literal \<open>p\<close> in \<open>s\<close>: the text before it
  and the text after it.
\<close>

fun find_tag :: "ustr \<Rightarrow> ustr \<Rightarrow> (ustr \<times> ustr) option" where
  "find_tag p [] = (if p = [] then Some ([], []) else None)"
| "find_tag p (c # cs) =
     (if istartswith (c # cs) p then Some ([], drop (length p) (c # cs))
      else map_option (\<lambda>(a, b). (c # a, b)) (find_tag p cs))"

text \<open>
  \<^verbatim>\<open>_THINK_TAG_RE.search\<close> for \<^verbatim>\<open><think>(.*?)</think>\<close> with DOTALL and IGNORECASE. The
  engine tries start positions from the left and, at an opening tag, extends the lazy
  group to the nearest closing tag. When the leftmost opening tag has no closing tag
  after it, no later opening tag has one either, so the search is: the first opening tag,
  then the first closing tag after it. The result is (text before the match, group 1,
  text after the match).
\<close>

definition think_search :: "ustr \<Rightarrow> (ustr \<times> ustr \<times> ustr) option" where
  "think_search s =
     (case find_tag (ascii ''<think>'') s of
        None \<Rightarrow> None
      | Some (pre, r) \<Rightarrow>
          (case find_tag (ascii ''</think>'') r of
             None \<Rightarrow> None
           | Some (body, post) \<Rightarrow> Some (pre, body, post)))"

lemma find_tag_length:
  "find_tag p s = Some (a, b) \<Longrightarrow> p \<noteq> [] \<Longrightarrow> length b < length s"
  by (induction s arbitrary: a) (auto split: if_splits simp: istartswith_def)

lemma think_search_length:
  "think_search s = Some (pre, body, post) \<Longrightarrow> length post < length s"
  by (auto simp: think_search_def ascii_def split: option.splits dest!: find_tag_length)

text \<open>
  \<^verbatim>\<open>_THINK_TAG_RE.sub("", s)\<close>: every non-overlapping match is removed, scanning from
  the left and resuming after each match.
\<close>

function think_sub :: "ustr \<Rightarrow> ustr" where
  "think_sub s =
     (case think_search s of
        None \<Rightarrow> s
      | Some (pre, body, post) \<Rightarrow> pre @ think_sub post)"
  by pat_completeness auto
termination
  by (relation "measure length") (auto dest: think_search_length)

text \<open>
  \<^verbatim>\<open>re.sub(r"^\s*(final|answer)\s*:\s*", "", t, flags=re.IGNORECASE)\<close>. The pattern is
  anchored at the start, so at most one match is removed. No character of a greedy
  \<^verbatim>\<open>\s*\<close> can start what follows it, so each run of spaces is taken whole.
\<close>

definition sub_label :: "ustr \<Rightarrow> ustr" where
  "sub_label t =
     (let r = dropWhile isspace t;
          w = (if istartswith r (ascii ''final'') then Some (drop 5 r)
               else if istartswith r (ascii ''answer'') then Some (drop 6 r)
               else None)
      in case w of
           None \<Rightarrow> t
         | Some r1 \<Rightarrow>
             (case dropWhile isspace r1 of
                [] \<Rightarrow> t
              | c # r2 \<Rightarrow> if c = 0x3A then dropWhile isspace r2 else t))"

definition fence :: ustr where
  "fence = [0x60, 0x60, 0x60]"

text \<open>The class \<^verbatim>\<open>[a-zA-Z0-9_-]\<close>.\<close>

definition tagchar :: "nat \<Rightarrow> bool" where
  "tagchar c \<longleftrightarrow>
     (0x61 \<le> c \<and> c \<le> 0x7A) \<or> (0x41 \<le> c \<and> c \<le> 0x5A) \<or> (0x30 \<le> c \<and> c \<le> 0x39) \<or>
     c = 0x5F \<or> c = 0x2D"

text \<open>\<^verbatim>\<open>re.sub(r"^```[a-zA-Z0-9_-]*\s*", "", t)\<close>.\<close>

definition sub_fence_open :: "ustr \<Rightarrow> ustr" where
  "sub_fence_open t =
     (if startswith t fence then dropWhile isspace (dropWhile tagchar (drop 3 t)) else t)"

text \<open>
  \<^verbatim>\<open>re.sub(r"\s*```$", "", t)\<close>. Without MULTILINE, \<^verbatim>\<open>$\<close> matches at the end of the text
  and before a newline that ends the text. The leftmost match starts at the first
  position from which the rest of the text is spaces, the fence, and the end (or one
  final newline, which stays). Nothing after that match can match again.
\<close>

definition fence_close_here :: "ustr \<Rightarrow> bool" where
  "fence_close_here s \<longleftrightarrow>
     (let r = dropWhile isspace s in r = fence \<or> r = fence @ [0x0A])"

fun sub_fence_close :: "ustr \<Rightarrow> ustr" where
  "sub_fence_close [] = []"
| "sub_fence_close (c # cs) =
     (if fence_close_here (c # cs)
      then (if last (c # cs) = 0x0A then [0x0A] else [])
      else c # sub_fence_close cs)"

section \<open>De-scaffolding and the splitter on text\<close>

text \<open>\<^verbatim>\<open>_clean_answer\<close> on a \<^verbatim>\<open>str\<close>.\<close>

definition clean_answer :: "ustr \<Rightarrow> ustr" where
  "clean_answer text =
     (if text = [] then []
      else let t = strip text;
               t = sub_label t;
               t = (if startswith t fence \<and> endswith t fence then strip (strip_chr 0x60 t)
                    else t)
           in strip t)"

text \<open>\<^verbatim>\<open>_split_thinking_and_answer_from_content\<close>: (thinking, answer).\<close>

definition split_thinking_and_answer_from_content :: "ustr \<Rightarrow> ustr \<times> ustr" where
  "split_thinking_and_answer_from_content content =
     (if content = [] then ([], [])
      else case think_search content of
             Some (pre, body, post) \<Rightarrow>
               (let thinking = strip body;
                    answer = strip (think_sub content)
                in (thinking, clean_answer answer))
           | None \<Rightarrow> ([], clean_answer content))"

section \<open>JSON values and \<^verbatim>\<open>json.loads\<close>\<close>

text \<open>
  The values \<^verbatim>\<open>json.loads\<close> builds. Python's \<^verbatim>\<open>None\<close> is \<open>JNull\<close>. A \<^verbatim>\<open>dict\<close> is an
  association list with distinct keys in insertion order. A \<^verbatim>\<open>float\<close> is kept as
  the literal it was read from (\<^verbatim>\<open>NaN\<close>, \<^verbatim>\<open>Infinity\<close> and \<^verbatim>\<open>-Infinity\<close> included, which
  \<^verbatim>\<open>json.loads\<close> accepts); of the double that the literal denotes, only whether it is
  zero is modelled (\<open>float_is_zero\<close> below).
\<close>

datatype json =
    JNull
  | JBool bool
  | JInt int
  | JFloat ustr
  | JStr ustr
  | JArr "json list"
  | JObj "(ustr \<times> json) list"

fun is_dict :: "json \<Rightarrow> bool" where
  "is_dict (JObj d) = True"
| "is_dict _ = False"

fun is_list :: "json \<Rightarrow> bool" where
  "is_list (JArr xs) = True"
| "is_list _ = False"

fun is_str :: "json \<Rightarrow> bool" where
  "is_str (JStr s) = True"
| "is_str _ = False"

text \<open>\<^verbatim>\<open>d[k] = v\<close>, \<^verbatim>\<open>d.get(k)\<close> and \<^verbatim>\<open>d.get(k, default)\<close> on a dict.\<close>

fun dict_set :: "ustr \<Rightarrow> json \<Rightarrow> (ustr \<times> json) list \<Rightarrow> (ustr \<times> json) list" where
  "dict_set k v [] = [(k, v)]"
| "dict_set k v ((k', v') # d) = (if k' = k then (k, v) # d else (k', v') # dict_set k v d)"

definition dict_get_default :: "(ustr \<times> json) list \<Rightarrow> ustr \<Rightarrow> json \<Rightarrow> json" where
  "dict_get_default d k dflt = (case map_of d k of None \<Rightarrow> dflt | Some v \<Rightarrow> v)"

definition dict_get :: "(ustr \<times> json) list \<Rightarrow> ustr \<Rightarrow> json" where
  "dict_get d k = dict_get_default d k JNull"

subsection \<open>Tokens\<close>

datatype token =
    TLBrace | TRBrace | TLBrack | TRBrack | TColon | TComma
  | TStr ustr
  | TVal json

text \<open>The whitespace \<^verbatim>\<open>json.loads\<close> skips between tokens: space, tab, newline, return.\<close>

definition jws :: "nat \<Rightarrow> bool" where
  "jws c \<longleftrightarrow> c = 0x20 \<or> c = 0x09 \<or> c = 0x0A \<or> c = 0x0D"

definition isdigit :: "nat \<Rightarrow> bool" where
  "isdigit c \<longleftrightarrow> 0x30 \<le> c \<and> c \<le> 0x39"

definition hexval :: "nat \<Rightarrow> nat option" where
  "hexval c =
     (if 0x30 \<le> c \<and> c \<le> 0x39 then Some (c - 0x30)
      else if 0x61 \<le> c \<and> c \<le> 0x66 then Some (c - 0x61 + 10)
      else if 0x41 \<le> c \<and> c \<le> 0x46 then Some (c - 0x41 + 10)
      else None)"

definition hex4 :: "nat \<Rightarrow> nat \<Rightarrow> nat \<Rightarrow> nat \<Rightarrow> nat option" where
  "hex4 a b c d =
     (case (hexval a, hexval b, hexval c, hexval d) of
        (Some w, Some x, Some y, Some z) \<Rightarrow> Some (w * 4096 + x * 256 + y * 16 + z)
      | _ \<Rightarrow> None)"

text \<open>The one-character escapes: quote, backslash, slash, b, f, n, r, t.\<close>

definition simple_escape :: "nat \<Rightarrow> nat option" where
  "simple_escape e =
     (if e = 0x22 \<or> e = 0x5C \<or> e = 0x2F then Some e
      else if e = 0x62 then Some 0x08
      else if e = 0x66 then Some 0x0C
      else if e = 0x6E then Some 0x0A
      else if e = 0x72 then Some 0x0D
      else if e = 0x74 then Some 0x09
      else None)"

definition hex4s :: "ustr \<Rightarrow> nat option" where
  "hex4s s = (if length s < 4 then None else hex4 (s ! 0) (s ! 1) (s ! 2) (s ! 3))"

text \<open>A \<^verbatim>\<open>\uXXXX\<close> escape of a low surrogate at the head of the text.\<close>

definition low_surrogate_escape :: "ustr \<Rightarrow> nat option" where
  "low_surrogate_escape s =
     (if 2 \<le> length s \<and> s ! 0 = 0x5C \<and> s ! 1 = 0x75 then
        (case hex4s (drop 2 s) of
           None \<Rightarrow> None
         | Some lo \<Rightarrow> if 0xDC00 \<le> lo \<and> lo \<le> 0xDFFF then Some lo else None)
      else None)"

text \<open>
  A string literal after its opening quote (strict mode: no raw control character). A
  \<^verbatim>\<open>\uXXXX\<close> high surrogate followed by a \<^verbatim>\<open>\uXXXX\<close> low surrogate is one code point.
  The result is the decoded string and the text after the closing quote.
\<close>

fun lex_string :: "ustr \<Rightarrow> ustr \<Rightarrow> (ustr \<times> ustr) option" where
  "lex_string acc [] = None"
| "lex_string acc (c # cs) =
     (if c = 0x22 then Some (acc, cs)
      else if c = 0x5C then
        (case cs of
           [] \<Rightarrow> None
         | e # r \<Rightarrow>
             if e = 0x75 then
               (case hex4s r of
                  None \<Rightarrow> None
                | Some u \<Rightarrow>
                    (case (if 0xD800 \<le> u \<and> u \<le> 0xDBFF then low_surrogate_escape (drop 4 r)
                           else None) of
                       Some lo \<Rightarrow>
                         lex_string (acc @ [0x10000 + (u - 0xD800) * 0x400 + (lo - 0xDC00)])
                           (drop 10 r)
                     | None \<Rightarrow> lex_string (acc @ [u]) (drop 4 r)))
             else (case simple_escape e of
                     None \<Rightarrow> None
                   | Some x \<Rightarrow> lex_string (acc @ [x]) r))
      else if c < 0x20 then None
      else lex_string (acc @ [c]) cs)"

definition dec :: "ustr \<Rightarrow> nat" where
  "dec ds = foldl (\<lambda>n c. 10 * n + (c - 0x30)) 0 ds"

text \<open>The exponent part \<^verbatim>\<open>[eE][-+]?[0-9]+\<close> at the head of the text, or nothing.\<close>

definition exp_part :: "ustr \<Rightarrow> ustr" where
  "exp_part s =
     (case s of
        [] \<Rightarrow> []
      | e # r \<Rightarrow>
          if e = 0x65 \<or> e = 0x45 then
            (let sg = (case r of
                         [] \<Rightarrow> []
                       | x # _ \<Rightarrow> if x = 0x2B \<or> x = 0x2D then [x] else []);
                 ds = takeWhile isdigit (drop (length sg) r)
             in if ds = [] then [] else e # sg @ ds)
          else [])"

text \<open>The fraction part \<^verbatim>\<open>\.[0-9]+\<close> at the head of the text, or nothing.\<close>

definition frac_part :: "ustr \<Rightarrow> ustr" where
  "frac_part s =
     (case s of
        p # d # r \<Rightarrow> if p = 0x2E \<and> isdigit d then p # d # takeWhile isdigit r else []
      | _ \<Rightarrow> [])"

text \<open>
  A number, \<^verbatim>\<open>-?(0|[1-9][0-9]*)(\.[0-9]+)?([eE][-+]?[0-9]+)?\<close>: an \<^verbatim>\<open>int\<close> when it has
  neither fraction nor exponent, a \<^verbatim>\<open>float\<close> otherwise.
\<close>

definition lex_number :: "ustr \<Rightarrow> (json \<times> ustr) option" where
  "lex_number s =
     (let neg = (s \<noteq> [] \<and> hd s = 0x2D);
          s1 = (if neg then tl s else s)
      in case s1 of
           [] \<Rightarrow> None
         | d # r \<Rightarrow>
             if \<not> isdigit d then None
             else
               (let ip = (if d = 0x30 then [d] else d # takeWhile isdigit r);
                    s2 = drop (length ip) s1;
                    fp = frac_part s2;
                    s3 = drop (length fp) s2;
                    ep = exp_part s3;
                    s4 = drop (length ep) s3;
                    sg = (if neg then [0x2D] else [])
                in Some (if fp = [] \<and> ep = []
                         then JInt ((if neg then - 1 else 1) * int (dec ip))
                         else JFloat (sg @ ip @ fp @ ep),
                         s4)))"

text \<open>A value that is neither a string nor a container, at the head of the text.\<close>

definition lex_scalar :: "ustr \<Rightarrow> (json \<times> ustr) option" where
  "lex_scalar s =
     (if startswith s (ascii ''null'') then Some (JNull, drop 4 s)
      else if startswith s (ascii ''true'') then Some (JBool True, drop 4 s)
      else if startswith s (ascii ''false'') then Some (JBool False, drop 5 s)
      else if startswith s (ascii ''NaN'') then Some (JFloat (ascii ''NaN''), drop 3 s)
      else if startswith s (ascii ''Infinity'') then Some (JFloat (ascii ''Infinity''), drop 8 s)
      else if startswith s (ascii ''-Infinity'')
      then Some (JFloat (ascii ''-Infinity''), drop 9 s)
      else lex_number s)"

lemma lex_string_length: "lex_string acc s = Some (v, r) \<Longrightarrow> length r < length s"
proof (induction acc s rule: lex_string.induct)
  case (1 acc)
  then show ?case by simp
next
  case (2 acc c cs)
  show ?case
  proof (cases "c = 0x22")
    case True
    with "2.prems" show ?thesis by simp
  next
    case nq: False
    show ?thesis
    proof (cases "c = 0x5C")
      case False
      with nq "2.prems" "2.IH"(4) show ?thesis
        by (auto split: if_splits)
    next
      case bs: True
      show ?thesis
      proof (cases cs)
        case Nil
        with nq bs "2.prems" show ?thesis by simp
      next
        case (Cons e t)
        show ?thesis
        proof (cases "e = 0x75")
          case False
          with nq bs Cons "2.prems" "2.IH"(3) show ?thesis
            by (fastforce split: option.splits)
        next
          case True
          with nq bs Cons "2.prems" "2.IH"(1,2) show ?thesis
            by (fastforce split: option.splits if_splits)
        qed
      qed
    qed
  qed
qed

lemma lex_number_length: "lex_number s = Some (v, r) \<Longrightarrow> length r < length s"
  by (cases s) (auto simp: lex_number_def Let_def split: if_splits list.splits)

lemma lex_scalar_length: "lex_scalar s = Some (v, r) \<Longrightarrow> length r < length s"
  unfolding lex_scalar_def startswith_def ascii_def
  by (cases s) (auto split: if_splits dest: lex_number_length)

text \<open>The text as tokens; \<open>None\<close> when some part of it is no token.\<close>

function lex :: "ustr \<Rightarrow> token list option" where
  "lex [] = Some []"
| "lex (c # cs) =
     (if jws c then lex cs
      else if c = 0x7B then map_option (Cons TLBrace) (lex cs)
      else if c = 0x7D then map_option (Cons TRBrace) (lex cs)
      else if c = 0x5B then map_option (Cons TLBrack) (lex cs)
      else if c = 0x5D then map_option (Cons TRBrack) (lex cs)
      else if c = 0x3A then map_option (Cons TColon) (lex cs)
      else if c = 0x2C then map_option (Cons TComma) (lex cs)
      else if c = 0x22 then
        (case lex_string [] cs of
           None \<Rightarrow> None
         | Some (s, r) \<Rightarrow> map_option (Cons (TStr s)) (lex r))
      else
        (case lex_scalar (c # cs) of
           None \<Rightarrow> None
         | Some (v, r) \<Rightarrow> map_option (Cons (TVal v)) (lex r)))"
  by pat_completeness auto
termination
  by (relation "measure length")
     (auto dest: lex_string_length lex_scalar_length)

subsection \<open>The grammar\<close>

text \<open>
  The decoder's recursive descent, with its call stack made explicit: a frame for each
  container that is open (the items read so far; for an object, the key whose value is
  being read), and what the decoder expects next. A repeated key keeps its first
  position and takes the last value, as \<^verbatim>\<open>dict\<close> does.
\<close>

datatype frame =
    FArr "json list"
  | FObj "(ustr \<times> json) list"
  | FKey "(ustr \<times> json) list" ustr

datatype pmode = PVal | PValOrClose | PKeyOrClose | PKey | PColon | PSep | PDone json

fun complete :: "json \<Rightarrow> frame list \<Rightarrow> (pmode \<times> frame list) option" where
  "complete v [] = Some (PDone v, [])"
| "complete v (FArr xs # st) = Some (PSep, FArr (xs @ [v]) # st)"
| "complete v (FKey d k # st) = Some (PSep, FObj (dict_set k v d) # st)"
| "complete v (FObj d # st) = None"

fun start_value :: "frame list \<Rightarrow> token \<Rightarrow> (pmode \<times> frame list) option" where
  "start_value st (TVal v) = complete v st"
| "start_value st (TStr s) = complete (JStr s) st"
| "start_value st TLBrack = Some (PValOrClose, FArr [] # st)"
| "start_value st TLBrace = Some (PKeyOrClose, FObj [] # st)"
| "start_value st _ = None"

fun close_arr :: "frame list \<Rightarrow> (pmode \<times> frame list) option" where
  "close_arr (FArr xs # st) = complete (JArr xs) st"
| "close_arr _ = None"

fun close_obj :: "frame list \<Rightarrow> (pmode \<times> frame list) option" where
  "close_obj (FObj d # st) = complete (JObj d) st"
| "close_obj _ = None"

fun take_key :: "ustr \<Rightarrow> frame list \<Rightarrow> (pmode \<times> frame list) option" where
  "take_key k (FObj d # st) = Some (PColon, FKey d k # st)"
| "take_key k _ = None"

fun after_comma :: "frame list \<Rightarrow> (pmode \<times> frame list) option" where
  "after_comma (FArr xs # st) = Some (PVal, FArr xs # st)"
| "after_comma (FObj d # st) = Some (PKey, FObj d # st)"
| "after_comma _ = None"

fun step :: "pmode \<Rightarrow> frame list \<Rightarrow> token \<Rightarrow> (pmode \<times> frame list) option" where
  "step (PDone v) st t = None"
| "step PVal st t = start_value st t"
| "step PValOrClose st t = (if t = TRBrack then close_arr st else start_value st t)"
| "step PKeyOrClose st t =
     (case t of TRBrace \<Rightarrow> close_obj st | TStr k \<Rightarrow> take_key k st | _ \<Rightarrow> None)"
| "step PKey st t = (case t of TStr k \<Rightarrow> take_key k st | _ \<Rightarrow> None)"
| "step PColon st t = (if t = TColon then Some (PVal, st) else None)"
| "step PSep st t =
     (case t of
        TComma \<Rightarrow> after_comma st
      | TRBrack \<Rightarrow> close_arr st
      | TRBrace \<Rightarrow> close_obj st
      | _ \<Rightarrow> None)"

fun parse :: "pmode \<Rightarrow> frame list \<Rightarrow> token list \<Rightarrow> json option" where
  "parse m st [] = (case m of PDone v \<Rightarrow> Some v | _ \<Rightarrow> None)"
| "parse m st (t # ts) =
     (case step m st t of
        None \<Rightarrow> None
      | Some (m', st') \<Rightarrow> parse m' st' ts)"

text \<open>\<^verbatim>\<open>json.loads\<close>; \<open>None\<close> when it raises.\<close>

definition json_loads :: "ustr \<Rightarrow> json option" where
  "json_loads s = (case lex s of None \<Rightarrow> None | Some ts \<Rightarrow> parse PVal [] ts)"

section \<open>Python truth values\<close>

text \<open>
  The exponent of an exponent part \<^verbatim>\<open>[eE][-+]?[0-9]+\<close>; 0 when there is none.
\<close>

definition exponent_of :: "ustr \<Rightarrow> int" where
  "exponent_of ep =
     (case ep of
        [] \<Rightarrow> 0
      | e # r \<Rightarrow>
          (case r of
             [] \<Rightarrow> 0
           | x # ds \<Rightarrow>
               if x = 0x2D then - int (dec ds)
               else if x = 0x2B then int (dec ds)
               else int (dec r)))"

text \<open>
  Whether the \<^verbatim>\<open>float\<close> read from a literal is zero. \<^verbatim>\<open>json.loads\<close> reads a number with a
  fraction or an exponent with \<^verbatim>\<open>float()\<close>, which gives the double nearest to the decimal
  value, a tie going to the even one. The smallest positive double is 2 to the power -1074, so the
  result is zero (or minus zero) exactly when the magnitude of the literal is at most
  2 to the power -1075: the literal \<^verbatim>\<open>1e-400\<close> is read as \<^verbatim>\<open>0.0\<close>. With the digits \<open>ip\<close> before the
  point, the digits \<open>fd\<close> after it and the exponent \<open>e\<close>, the magnitude is the number
  written \<open>ip fd\<close> times 10 to the power \<open>e - length fd\<close>. \<^verbatim>\<open>NaN\<close>, \<^verbatim>\<open>Infinity\<close> and
  \<^verbatim>\<open>-Infinity\<close> have no digits and are not zero.
\<close>

definition float_is_zero :: "ustr \<Rightarrow> bool" where
  "float_is_zero l =
     (let s1 = (if l \<noteq> [] \<and> hd l = 0x2D then tl l else l);
          ip = takeWhile isdigit s1;
          s2 = drop (length ip) s1;
          fp = frac_part s2;
          ep = exp_part (drop (length fp) s2);
          m = dec (ip @ tl fp);
          sh = exponent_of ep - int (length (tl fp))
      in ip \<noteq> [] \<and> (m = 0 \<or> (sh < 0 \<and> m * 2 ^ 1075 \<le> 10 ^ nat (- sh))))"

text \<open>Python truth value: \<^verbatim>\<open>None\<close>, \<^verbatim>\<open>False\<close>, zero and the empty containers are false.\<close>

fun truthy :: "json \<Rightarrow> bool" where
  "truthy JNull = False"
| "truthy (JBool b) = b"
| "truthy (JInt i) = (i \<noteq> 0)"
| "truthy (JFloat l) = (\<not> float_is_zero l)"
| "truthy (JStr s) = (s \<noteq> [])"
| "truthy (JArr xs) = (xs \<noteq> [])"
| "truthy (JObj d) = (d \<noteq> [])"

text \<open>\<^verbatim>\<open>a or b\<close>.\<close>

definition py_or :: "json \<Rightarrow> json \<Rightarrow> json" where
  "py_or a b = (if truthy a then a else b)"

section \<open>The JSON extractor\<close>

text \<open>
  \<^verbatim>\<open>_safe_json_loads\<close>: an exception becomes \<^verbatim>\<open>None\<close>, which is also what the text
  \<^verbatim>\<open>null\<close> parses to.
\<close>

definition safe_json_loads :: "ustr \<Rightarrow> json" where
  "safe_json_loads s = (case json_loads s of None \<Rightarrow> JNull | Some v \<Rightarrow> v)"

text \<open>\<^verbatim>\<open>s.find(c)\<close> for one character: the first index, or -1.\<close>

definition find_chr :: "nat \<Rightarrow> ustr \<Rightarrow> int" where
  "find_chr c s = (if c \<in> set s then int (length (takeWhile (\<lambda>x. x \<noteq> c) s)) else - 1)"

text \<open>
  The loop \<^verbatim>\<open>for i in range(0, min(4000, len(candidate)))\<close>: \<open>i\<close> is the loop variable
  and \<open>k\<close> the number of iterations left. The result \<open>JNull\<close> is \<^verbatim>\<open>None\<close>.
\<close>

fun scan_candidates :: "ustr \<Rightarrow> nat \<Rightarrow> nat \<Rightarrow> json" where
  "scan_candidates candidate i 0 = JNull"
| "scan_candidates candidate i (Suc k) =
     (let chunk = strip (take (length candidate - i) candidate)
      in if chunk = [] then JNull
         else let parsed = safe_json_loads chunk
              in if parsed \<noteq> JNull then parsed
                 else scan_candidates candidate (i + 1) k)"

text \<open>The text after trimming and removing a fence, as the extractor parses it.\<close>

definition unfence :: "ustr \<Rightarrow> ustr" where
  "unfence text =
     (let t = strip text
      in if startswith t fence then strip (sub_fence_close (sub_fence_open t)) else t)"

text \<open>The search from the earliest opening bracket, when the direct parse gave nothing.\<close>

definition extract_fallback :: "ustr \<Rightarrow> json" where
  "extract_fallback t =
     (let obj_start = find_chr 0x7B t;
          arr_start = find_chr 0x5B t
      in if obj_start = - 1 \<and> arr_start = - 1 then JNull
         else let start = (if obj_start \<noteq> - 1 \<and> (arr_start = - 1 \<or> obj_start < arr_start)
                           then obj_start else arr_start);
                  candidate = strip (drop (nat start) t)
              in scan_candidates candidate 0 (min 4000 (length candidate)))"

text \<open>\<^verbatim>\<open>_extract_json_from_text\<close>.\<close>

definition extract_json_from_text :: "ustr \<Rightarrow> json" where
  "extract_json_from_text text =
     (if text = [] then JNull
      else let t = unfence text;
               direct = safe_json_loads t
           in if direct \<noteq> JNull then direct else extract_fallback t)"

section \<open>The splitter on a message\<close>

text \<open>
  Library functions whose text output no property here depends on: \<^verbatim>\<open>str(x)\<close> on a value
  that is not a \<^verbatim>\<open>str\<close>, \<^verbatim>\<open>json.dumps(x, ensure_ascii=False)\<close>, and the same with
  \<^verbatim>\<open>indent=2\<close>.
\<close>

record pylib =
  py_repr :: "json \<Rightarrow> ustr"
  dumps :: "json \<Rightarrow> ustr"
  dumps_indent :: "json \<Rightarrow> ustr"

text \<open>\<^verbatim>\<open>str(x)\<close>: a \<^verbatim>\<open>str\<close> is itself.\<close>

fun py_str :: "pylib \<Rightarrow> json \<Rightarrow> ustr" where
  "py_str L (JStr s) = s"
| "py_str L v = py_repr L v"

text \<open>\<^verbatim>\<open>_clean_answer\<close> on a value that need not be a \<^verbatim>\<open>str\<close>.\<close>

definition clean_answer_any :: "pylib \<Rightarrow> json \<Rightarrow> ustr" where
  "clean_answer_any L text = (if \<not> truthy text then [] else clean_answer (py_str L text))"

text \<open>\<^verbatim>\<open>_split_thinking_and_answer\<close>: (thinking, answer).\<close>

definition split_thinking_and_answer :: "pylib \<Rightarrow> json \<Rightarrow> ustr \<times> ustr" where
  "split_thinking_and_answer L message_obj =
     (let reasoning =
            (case message_obj of
               JObj d \<Rightarrow>
                 py_or (py_or (dict_get d (ascii ''reasoning'')) (dict_get d (ascii ''thoughts'')))
                   (JStr [])
             | _ \<Rightarrow> JStr []);
          content =
            (case message_obj of
               JObj d \<Rightarrow> py_or (dict_get d (ascii ''content'')) (JStr [])
             | _ \<Rightarrow> JStr [])
      in case reasoning of
           JStr r \<Rightarrow>
             if strip r \<noteq> [] then (strip r, clean_answer_any L content)
             else (case content of
                     JStr c \<Rightarrow> split_thinking_and_answer_from_content c
                   | _ \<Rightarrow> ([], clean_answer (py_str L content)))
         | _ \<Rightarrow>
             (case content of
                JStr c \<Rightarrow> split_thinking_and_answer_from_content c
              | _ \<Rightarrow> ([], clean_answer (py_str L content))))"

section \<open>The model probe\<close>

text \<open>\<^verbatim>\<open>item.get("id") or item.get("name") or item.get("model")\<close>, stripped when usable.\<close>

definition model_id_of :: "(ustr \<times> json) list \<Rightarrow> ustr option" where
  "model_id_of item =
     (case py_or (py_or (dict_get item (ascii ''id'')) (dict_get item (ascii ''name'')))
             (dict_get item (ascii ''model'')) of
        JStr mid \<Rightarrow> if strip mid \<noteq> [] then Some (strip mid) else None
      | _ \<Rightarrow> None)"

text \<open>The loop over \<^verbatim>\<open>payload["data"]\<close>: only mappings count.\<close>

fun pick_in_data :: "json list \<Rightarrow> ustr option" where
  "pick_in_data [] = None"
| "pick_in_data (JObj item # rest) =
     (case model_id_of item of Some m \<Rightarrow> Some m | None \<Rightarrow> pick_in_data rest)"
| "pick_in_data (_ # rest) = pick_in_data rest"

text \<open>The loop over \<^verbatim>\<open>payload["models"]\<close>: mappings and strings count.\<close>

fun pick_in_models :: "json list \<Rightarrow> ustr option" where
  "pick_in_models [] = None"
| "pick_in_models (JObj item # rest) =
     (case model_id_of item of Some m \<Rightarrow> Some m | None \<Rightarrow> pick_in_models rest)"
| "pick_in_models (JStr item # rest) =
     (if strip item \<noteq> [] then Some (strip item) else pick_in_models rest)"
| "pick_in_models (_ # rest) = pick_in_models rest"

text \<open>
  \<^verbatim>\<open>_pick_model_from_models_payload\<close>. The outer \<open>None\<close> is the \<^verbatim>\<open>AttributeError\<close> of
  \<^verbatim>\<open>payload.get\<close> on a payload that is no mapping.
\<close>

definition pick_model_from_models_payload :: "json \<Rightarrow> ustr option option" where
  "pick_model_from_models_payload payload =
     (case payload of
        JObj p \<Rightarrow>
          Some
            (case (case dict_get p (ascii ''data'') of
                     JArr data \<Rightarrow> pick_in_data data
                   | _ \<Rightarrow> None) of
               Some m \<Rightarrow> Some m
             | None \<Rightarrow>
                 (case dict_get p (ascii ''models'') of
                    JArr models \<Rightarrow> pick_in_models models
                  | _ \<Rightarrow> None))
      | _ \<Rightarrow> None)"

section \<open>The server\<close>

text \<open>
  What the code reads from a \<^verbatim>\<open>requests\<close> response: the status, \<^verbatim>\<open>r.json()\<close>, \<^verbatim>\<open>r.text\<close>,
  and the lines \<^verbatim>\<open>r.iter_lines(decode_unicode=True)\<close> yields. For a body that is not JSON,
  \<^verbatim>\<open>r.json()\<close> raises \<^verbatim>\<open>requests.exceptions.JSONDecodeError\<close>, which is a
  \<^verbatim>\<open>RequestException\<close> (\<^verbatim>\<open>requests\<close> 2.27 and later): \<open>Inl e\<close>, with the text \<open>e\<close> of the
  exception. A failure of the transport in the middle of the lines is not modelled.
\<close>

record response =
  status_code :: int
  body_json :: "ustr + json"
  body_text :: ustr
  body_lines :: "ustr list"

type_synonym headers = "(ustr \<times> ustr) list"

text \<open>
  The server as the code sees it. \<^verbatim>\<open>requests.get(url, headers, timeout)\<close>: \<open>None\<close> when it
  raises. \<^verbatim>\<open>requests.post(url, json, headers, timeout, stream)\<close>: \<open>Inl e\<close> when it raises
  the \<^verbatim>\<open>RequestException\<close> \<open>e\<close>.
\<close>

record server =
  http_get :: "ustr \<Rightarrow> headers \<Rightarrow> int \<Rightarrow> response option"
  http_post :: "ustr \<Rightarrow> json \<Rightarrow> headers \<Rightarrow> int \<Rightarrow> bool \<Rightarrow> ustr + response"

datatype request =
    GET ustr headers int
  | POST ustr json headers int bool

text \<open>\<^verbatim>\<open>_build_headers\<close>.\<close>

definition build_headers :: "ustr \<Rightarrow> headers" where
  "build_headers api_key =
     (let k = strip api_key
      in (ascii ''Content-Type'', ascii ''application/json'') #
         (if k \<noteq> [] then [(ascii ''Authorization'', ascii ''Bearer '' @ k)] else []))"

text \<open>\<^verbatim>\<open>_get_first_model_id\<close>: every exception gives \<^verbatim>\<open>None\<close>.\<close>

definition get_first_model_id :: "server \<Rightarrow> ustr \<Rightarrow> headers \<Rightarrow> int \<Rightarrow> ustr option" where
  "get_first_model_id S server_url hdrs timeout_s =
     (let url = rstrip_chr 0x2F server_url @ ascii ''/v1/models''
      in case http_get S url hdrs timeout_s of
           None \<Rightarrow> None
         | Some r \<Rightarrow>
             if status_code r \<noteq> 200 then None
             else (case body_json r of
                     Inl e \<Rightarrow> None
                   | Inr j \<Rightarrow>
                       (case pick_model_from_models_payload j of
                          None \<Rightarrow> None
                        | Some m \<Rightarrow> m)))"

section \<open>The streaming decoder\<close>

text \<open>The accumulator of \<^verbatim>\<open>_parse_stream_and_accumulate\<close>; \<open>meta\<close> is its last two fields.\<close>

record accumulator =
  content_parts :: "ustr list"
  reasoning_parts :: "ustr list"
  done_flag :: bool
  chunks :: nat

definition init_acc :: accumulator where
  "init_acc = \<lparr>content_parts = [], reasoning_parts = [], done_flag = False, chunks = 0\<rparr>"

text \<open>\<^verbatim>\<open>if isinstance(x, str) and x: parts.append(x)\<close>.\<close>

fun append_str :: "json \<Rightarrow> ustr list \<Rightarrow> ustr list" where
  "append_str (JStr s) parts = (if s \<noteq> [] then parts @ [s] else parts)"
| "append_str _ parts = parts"

text \<open>The content and the reasoning of a delta or of a message, when it is a mapping.\<close>

fun take_fields :: "json \<Rightarrow> accumulator \<Rightarrow> accumulator" where
  "take_fields (JObj d) a =
     a\<lparr>content_parts := append_str (dict_get d (ascii ''content'')) (content_parts a),
       reasoning_parts :=
         append_str (py_or (dict_get d (ascii ''reasoning'')) (dict_get d (ascii ''thoughts'')))
           (reasoning_parts a)\<rparr>"
| "take_fields _ a = a"

text \<open>The body of the loop from \<^verbatim>\<open>chunk = _safe_json_loads(data_str)\<close> on.\<close>

definition process_event :: "json \<Rightarrow> accumulator \<Rightarrow> accumulator" where
  "process_event chunk a =
     (case chunk of
        JObj ev \<Rightarrow>
          (let a1 = a\<lparr>chunks := chunks a + 1\<rparr>
           in case dict_get ev (ascii ''choices'') of
                JArr (ch # _) \<Rightarrow>
                  (let c0 = (case ch of JObj c \<Rightarrow> c | _ \<Rightarrow> [])
                   in take_fields (dict_get c0 (ascii ''message''))
                        (take_fields (dict_get c0 (ascii ''delta'')) a1))
              | _ \<Rightarrow> a1)
      | _ \<Rightarrow> a)"

text \<open>
  \<^verbatim>\<open>line[len("data:"):].strip() if line.startswith("data:") else line.strip()\<close>.
\<close>

definition data_str_of :: "ustr \<Rightarrow> ustr" where
  "data_str_of line =
     (if startswith line (ascii ''data:'') then strip (drop 5 line) else strip line)"

text \<open>
  The loop over \<^verbatim>\<open>_iter_sse_lines(resp)\<close>, a generator that strips each raw line and
  skips the blank ones. The result is the accumulator and the raw lines the loop never
  pulled from the response: the loop stops pulling at \<^verbatim>\<open>break\<close>. The progress callback
  \<^verbatim>\<open>tick\<close> reports to the host and is not part of the state.
\<close>

fun stream_loop :: "ustr list \<Rightarrow> accumulator \<Rightarrow> accumulator \<times> ustr list" where
  "stream_loop [] a = (a, [])"
| "stream_loop (raw # rest) a =
     (let line = strip raw
      in if line = [] then stream_loop rest a
         else let data_str = data_str_of line
              in if data_str = ascii ''[DONE]'' then (a\<lparr>done_flag := True\<rparr>, rest)
                 else stream_loop rest (process_event (safe_json_loads data_str) a))"

text \<open>What follows the loop: (content, reasoning) from the accumulator.\<close>

definition finish_stream :: "accumulator \<Rightarrow> ustr \<times> ustr" where
  "finish_stream a =
     (let full_content = strip (concat (content_parts a));
          full_reasoning = strip (concat (reasoning_parts a))
      in if full_reasoning = [] \<and> full_content \<noteq> [] then
           (let (think, ans) = split_thinking_and_answer_from_content full_content
            in if think \<noteq> [] then (ans, think) else (full_content, full_reasoning))
         else (full_content, full_reasoning))"

text \<open>
  \<^verbatim>\<open>_parse_stream_and_accumulate\<close>: (content, reasoning, done flag, event count).
\<close>

definition parse_stream_and_accumulate :: "ustr list \<Rightarrow> ustr \<times> ustr \<times> bool \<times> nat" where
  "parse_stream_and_accumulate raw_lines =
     (let a = fst (stream_loop raw_lines init_acc);
          (content, reasoning) = finish_stream a
      in (content, reasoning, done_flag a, chunks a))"

section \<open>The orchestrating call\<close>

text \<open>
  The image argument, by what \<^verbatim>\<open>_image_tensor_to_base64_png\<close> does with it: there is no
  image, the conversion gives a data URL, or the conversion raises.
\<close>

datatype image_arg = NoImage | PngImage ustr | BadImage

record run_args =
  server_url :: ustr
  prompt :: ustr
  system_prompt :: ustr
  image :: image_arg
  api_key :: ustr
  model_mode :: ustr
  model_override :: ustr
  stream :: bool
  timeout_seconds :: int
  json_mode :: bool
  json_schema_hint :: ustr
  max_tokens :: int
  seed :: int
  stop_mode :: ustr
  stop_custom :: ustr
  text_postprocess :: ustr

text \<open>
  The exceptions \<^verbatim>\<open>run\<close> can end with: the \<^verbatim>\<open>ValueError\<close> of an empty server URL, an
  exception of the image conversion, the \<^verbatim>\<open>RuntimeError\<close> of a status other than 200 (with
  the status and the body, decoded when it can be), the \<^verbatim>\<open>RuntimeError\<close> made from a
  \<^verbatim>\<open>RequestException\<close> (with its text), and any other exception of reading a body that
  is JSON but not the JSON the code indexes.
\<close>

datatype error =
    ValueError
  | ImageError
  | ServerError int "json + ustr"
  | RequestFailed ustr
  | BadResponse

type_synonym outputs = "ustr \<times> ustr \<times> ustr \<times> ustr \<times> ustr"

definition json_instruction :: ustr where
  "json_instruction =
     ascii ''Return ONLY valid JSON. No commentary, no markdown, no code fences.''"

definition system_text :: "run_args \<Rightarrow> ustr" where
  "system_text A =
     (let sys = strip (system_prompt A)
      in if json_mode A then
           (let hint = strip (json_schema_hint A);
                ji = json_instruction @
                     (if hint \<noteq> []
                      then [0x0A] @ ascii ''JSON schema / shape hint:'' @ [0x0A] @ hint
                      else [])
            in if sys \<noteq> [] then strip (sys @ [0x0A, 0x0A] @ ji) else ji)
         else sys)"

definition message :: "string \<Rightarrow> json \<Rightarrow> json" where
  "message role content =
     JObj [(ascii ''role'', JStr (ascii role)), (ascii ''content'', content)]"

definition user_message :: "ustr \<Rightarrow> image_arg \<Rightarrow> error + json" where
  "user_message user_text img =
     (case img of
        NoImage \<Rightarrow> Inr (message ''user'' (JStr user_text))
      | BadImage \<Rightarrow> Inl ImageError
      | PngImage data_url \<Rightarrow>
          Inr (message ''user''
                 (JArr
                    (JObj [(ascii ''type'', JStr (ascii ''text'')), (ascii ''text'', JStr user_text)] #
                     (if data_url \<noteq> []
                      then [JObj [(ascii ''type'', JStr (ascii ''image_url'')),
                                  (ascii ''image_url'', JObj [(ascii ''url'', JStr data_url)])]]
                      else [])))))"

definition stop_value :: "run_args \<Rightarrow> ustr" where
  "stop_value A =
     (if stop_mode A = ascii ''preset:common_eot'' then ascii ''<|eot_id|>''
      else if stop_mode A = ascii ''preset:triple_hash'' then ascii ''###''
      else if stop_mode A = ascii ''custom'' then strip (stop_custom A)
      else [])"

definition build_payload :: "run_args \<Rightarrow> ustr \<Rightarrow> json list \<Rightarrow> (ustr \<times> json) list" where
  "build_payload A model_used messages =
     [(ascii ''model'', JStr model_used), (ascii ''messages'', JArr messages)] @
     (if max_tokens A > 0 then [(ascii ''max_tokens'', JInt (max_tokens A))] else []) @
     (if seed A \<ge> 0 then [(ascii ''seed'', JInt (seed A))] else []) @
     (if stop_value A \<noteq> [] then [(ascii ''stop'', JStr (stop_value A))] else []) @
     (if json_mode A
      then [(ascii ''response_format'', JObj [(ascii ''type'', JStr (ascii ''json_object''))])]
      else [])"

text \<open>The JSON output: the extracted value, printed and post-processed, or nothing.\<close>

definition json_output :: "pylib \<Rightarrow> run_args \<Rightarrow> ustr \<Rightarrow> ustr" where
  "json_output L A answer =
     (let json_obj = (if json_mode A then extract_json_from_text answer else JNull);
          json_str = (if json_obj \<noteq> JNull then dumps_indent L json_obj else [])
      in postprocess_text json_str (text_postprocess A))"

text \<open>The streaming branch after a response with status 200.\<close>

definition decode_stream :: "pylib \<Rightarrow> run_args \<Rightarrow> response \<Rightarrow> ustr \<Rightarrow> outputs" where
  "decode_stream L A resp model_used =
     (let (content, reasoning, dn, n) = parse_stream_and_accumulate (body_lines resp);
          answer = postprocess_text (clean_answer content) (text_postprocess A);
          thinking = postprocess_text (strip reasoning) (text_postprocess A);
          meta = JObj [(ascii ''done'', JBool dn), (ascii ''chunks'', JInt (int n))];
          raw = dumps L (JObj [(ascii ''stream_meta'', meta), (ascii ''content'', JStr content),
                               (ascii ''reasoning'', JStr reasoning)]);
          raw = postprocess_text raw (text_postprocess A)
      in (answer, thinking, json_output L A answer, raw, model_used))"

text \<open>
  What the single-shot branch does with the first choice, a mapping (the empty one when
  \<^verbatim>\<open>choices[0]\<close> is none).
\<close>

definition decode_first ::
  "pylib \<Rightarrow> run_args \<Rightarrow> ustr \<Rightarrow> ustr \<Rightarrow> (ustr \<times> json) list \<Rightarrow> outputs" where
  "decode_first L A raw model_used first =
     (case dict_get first (ascii ''message'') of
        JObj msg \<Rightarrow>
          (let (thinking, answer) = split_thinking_and_answer L (JObj msg);
               answer = postprocess_text answer (text_postprocess A);
               thinking = postprocess_text thinking (text_postprocess A)
           in (answer, thinking, json_output L A answer, raw, model_used))
      | _ \<Rightarrow>
          (let text = dict_get_default first (ascii ''text'') (JStr []);
               answer = postprocess_text (clean_answer_any L text) (text_postprocess A)
           in (answer, [], json_output L A answer, raw, model_used)))"

text \<open>
  The single-shot branch after a response with status 200. The exception of \<^verbatim>\<open>resp.json()\<close>
  on a body that is not JSON is a \<^verbatim>\<open>RequestException\<close>, which the \<^verbatim>\<open>except\<close> clause of \<^verbatim>\<open>run\<close>
  turns into the \<^verbatim>\<open>RuntimeError\<close> \<^verbatim>\<open>Request failed\<close>. A body that is JSON but no mapping,
  or whose \<^verbatim>\<open>choices\<close> cannot be indexed with 0, raises another exception
  (\<^verbatim>\<open>AttributeError\<close>, \<^verbatim>\<open>TypeError\<close>, \<^verbatim>\<open>KeyError\<close>), which \<^verbatim>\<open>run\<close> does not catch.
\<close>

definition decode_sync :: "pylib \<Rightarrow> run_args \<Rightarrow> response \<Rightarrow> ustr \<Rightarrow> error + outputs" where
  "decode_sync L A resp model_used =
     (case body_json resp of
        Inl e \<Rightarrow> Inl (RequestFailed e)
      | Inr (JObj data) \<Rightarrow>
          (let raw = postprocess_text (dumps_indent L (JObj data)) (text_postprocess A);
               choices = py_or (dict_get data (ascii ''choices'')) (JArr [])
           in if \<not> truthy choices then Inr ([], [], [], raw, model_used)
              else (case choices of
                      JArr (JObj first # _) \<Rightarrow> Inr (decode_first L A raw model_used first)
                    | JArr (_ # _) \<Rightarrow> Inr (decode_first L A raw model_used [])
                    | JStr (_ # _) \<Rightarrow> Inr (decode_first L A raw model_used [])
                    | _ \<Rightarrow> Inl BadResponse))
      | Inr _ \<Rightarrow> Inl BadResponse)"

text \<open>The model selection of \<^verbatim>\<open>run\<close>: the trimmed override in custom mode, else nothing.\<close>

definition model_override_of :: "run_args \<Rightarrow> ustr" where
  "model_override_of A =
     (if (if model_mode A = [] then ascii ''auto'' else model_mode A) = ascii ''custom''
      then strip (model_override A) else [])"

text \<open>
  \<^verbatim>\<open>SimpleLlamaCppClient.run\<close>: the outputs (answer, thinking, json, raw, model_used) or
  the exception, and the requests sent, in order.
\<close>

definition run :: "pylib \<Rightarrow> server \<Rightarrow> run_args \<Rightarrow> (error + outputs) \<times> request list" where
  "run L S A =
     (let url = rstrip_chr 0x2F (strip (server_url A))
      in if url = [] then (Inl ValueError, [])
         else let user_text = strip (prompt A)
              in if user_text = [] then (Inr ([], [], [], [], []), [])
                 else
                   (let hdrs = build_headers (api_key A);
                        timeout_s = (if timeout_seconds A \<noteq> 0 then timeout_seconds A else 300);
                        override = model_override_of A;
                        model_used =
                          (if override \<noteq> [] then override
                           else case get_first_model_id S url hdrs timeout_s of
                                  None \<Rightarrow> ascii ''local-model''
                                | Some m \<Rightarrow> if m \<noteq> [] then m else ascii ''local-model'');
                        probes =
                          (if override \<noteq> [] then []
                           else [GET (rstrip_chr 0x2F url @ ascii ''/v1/models'') hdrs timeout_s]);
                        endpoint = url @ ascii ''/v1/chat/completions'';
                        sys = system_text A
                    in case user_message user_text (image A) of
                         Inl e \<Rightarrow> (Inl e, probes)
                       | Inr um \<Rightarrow>
                           (let messages =
                                  (if sys \<noteq> [] then [message ''system'' (JStr sys)] else []) @ [um];
                                payload =
                                  JObj (build_payload A model_used messages @
                                        (if stream A then [(ascii ''stream'', JBool True)] else []));
                                sent = probes @ [POST endpoint payload hdrs timeout_s (stream A)]
                            in case http_post S endpoint payload hdrs timeout_s (stream A) of
                                 Inl e \<Rightarrow> (Inl (RequestFailed e), sent)
                               | Inr resp \<Rightarrow>
                                   if status_code resp \<noteq> 200 then
                                     (Inl (ServerError (status_code resp)
                                             (case body_json resp of
                                                Inr err \<Rightarrow> Inl err
                                              | Inl e \<Rightarrow> Inr (body_text resp))),
                                      sent)
                                   else if stream A then
                                     (Inr (decode_stream L A resp model_used), sent)
                                   else (decode_sync L A resp model_used, sent))))"

section \<open>Notions of the specification\<close>

text \<open>The event a raw line carries: its data, parsed (\<open>JNull\<close> when it does not parse).\<close>

definition line_event :: "ustr \<Rightarrow> json" where
  "line_event raw = safe_json_loads (data_str_of (strip raw))"

text \<open>A raw line that is the sentinel, with or without the event-field prefix.\<close>

definition is_sentinel :: "ustr \<Rightarrow> bool" where
  "is_sentinel raw \<longleftrightarrow> data_str_of (strip raw) = ascii ''[DONE]''"

text \<open>
  A malformed event line: not blank, not the sentinel, and its data is not valid JSON
  or parses to a value that is not a mapping.
\<close>

definition malformed :: "ustr \<Rightarrow> bool" where
  "malformed raw \<longleftrightarrow> strip raw \<noteq> [] \<and> \<not> is_sentinel raw \<and> \<not> is_dict (line_event raw)"

text \<open>The content fragments one event contributes, in the order the decoder appends them.\<close>

definition event_contents :: "json \<Rightarrow> ustr list" where
  "event_contents ev = content_parts (process_event ev init_acc)"

text \<open>The first inline marker block of a text encloses nothing but whitespace.\<close>

definition blank_first_block :: "ustr \<Rightarrow> bool" where
  "blank_first_block c =
     (case think_search c of Some (pre, body, post) \<Rightarrow> strip body = [] | None \<Rightarrow> False)"

text \<open>The default arguments of the node, as \<^verbatim>\<open>INPUT_TYPES\<close> and \<^verbatim>\<open>run\<close> declare them.\<close>

definition default_args :: run_args where
  "default_args =
     \<lparr>server_url = ascii ''http://127.0.0.1:8082'', prompt = [], system_prompt = [],
      image = NoImage, api_key = [], model_mode = ascii ''auto'', model_override = [],
      stream = True, timeout_seconds = 300, json_mode = False, json_schema_hint = [],
      max_tokens = 0, seed = - 1, stop_mode = ascii ''none'', stop_custom = [],
      text_postprocess = ascii ''fix_mojibake''\<rparr>"

text \<open>A server that cannot be reached, and library functions that print nothing.\<close>

definition no_server :: server where
  "no_server = \<lparr>http_get = (\<lambda>url hdrs t. None), http_post = (\<lambda>url body hdrs t s. Inl [])\<rparr>"

definition no_lib :: pylib where
  "no_lib = \<lparr>py_repr = (\<lambda>v. []), dumps = (\<lambda>v. []), dumps_indent = (\<lambda>v. [])\<rparr>"

text \<open>
  A server whose models endpoint lists one model, \<^verbatim>\<open>{"data": [{"id": " m1 "}]}\<close>, and
  whose chat endpoint answers \<^verbatim>\<open>{}\<close>.
\<close>

definition demo_server :: server where
  "demo_server =
     \<lparr>http_get = (\<lambda>url hdrs t.
        Some \<lparr>status_code = 200,
              body_json = Inr (JObj [(ascii ''data'',
                            JArr [JObj [(ascii ''id'', JStr (ascii '' m1 ''))]])]),
              body_text = [], body_lines = []\<rparr>),
      http_post = (\<lambda>url body hdrs t s.
        Inr \<lparr>status_code = 200, body_json = Inr (JObj []), body_text = [],
              body_lines = []\<rparr>)\<rparr>"


section \<open>The search for embedded JSON, as specified\<close>

text \<open>
  The specification words the search of \<^verbatim>\<open>_extract_json_from_text\<close> as follows: start at
  the earliest \<^verbatim>\<open>{\<close> or \<^verbatim>\<open>[\<close>; try the text from there, then the same with one trailing
  character removed, two, and so on, at most 4000 times; return the first candidate that
  parses, and absence when none does. These definitions follow those words, not the
  code, to be compared with \<open>extract_fallback\<close>.
\<close>

definition earliest_bracket :: "ustr \<Rightarrow> nat" where
  "earliest_bracket t = length (takeWhile (\<lambda>c. c \<noteq> 0x7B \<and> c \<noteq> 0x5B) t)"

text \<open>The candidates: attempt \<open>i\<close> removes \<open>i\<close> trailing characters.\<close>

definition spec_candidates :: "ustr \<Rightarrow> ustr list" where
  "spec_candidates c = map (\<lambda>i. take (length c - i) c) [0..<min 4000 (length c)]"

text \<open>The value of the first candidate that parses; \<open>JNull\<close> is absence.\<close>

fun spec_first_parse :: "ustr list \<Rightarrow> json" where
  "spec_first_parse [] = JNull"
| "spec_first_parse (s # ss) =
     (case json_loads s of Some v \<Rightarrow> v | None \<Rightarrow> spec_first_parse ss)"

text \<open>The search with the candidates as they are.\<close>

definition spec_fallback :: "ustr \<Rightarrow> json" where
  "spec_fallback t =
     (if 0x7B \<notin> set t \<and> 0x5B \<notin> set t then JNull
      else spec_first_parse (spec_candidates (drop (earliest_bracket t) t)))"

text \<open>The search with every candidate trimmed of surrounding whitespace before it is parsed.\<close>

definition spec_fallback_trimmed :: "ustr \<Rightarrow> json" where
  "spec_fallback_trimmed t =
     (if 0x7B \<notin> set t \<and> 0x5B \<notin> set t then JNull
      else spec_first_parse (map strip (spec_candidates (drop (earliest_bracket t) t))))"


section \<open>Text repair: properties\<close>


lemma straighten_fixed: "\<not> curly c \<Longrightarrow> straighten c = c"
  by (simp add: straighten_def curly_def)

lemma replace_smart_quotes_map: "replace_smart_quotes t = map straighten t"
  by (auto simp: replace_smart_quotes_def replace_chr_def straighten_def)








text \<open>
  Claim C8. The quote-straightening function maps each of the four curly code points
  (U+2018, U+2019, U+201C, U+201D) to its straight ASCII character and leaves every other
  character as it is; a text with none of the four comes back unchanged.
\<close>

theorem replace_smart_quotes_only_curly:
  "replace_smart_quotes t = map straighten t \<and>
   ((\<forall>c \<in> set t. \<not> curly c) \<longrightarrow> replace_smart_quotes t = t)"
proof -
  have "(\<forall>c \<in> set t. \<not> curly c) \<longrightarrow> map straighten t = t"
    by (induction t) (auto simp: straighten_fixed)
  then show ?thesis
    by (simp add: replace_smart_quotes_map)
qed

theorem replace_smart_quotes_only_curly_witness:
  "replace_smart_quotes [0x201C, 0x61, 0x2019, 0x201D] = [0x22, 0x61, 0x27, 0x22] \<and>
   replace_smart_quotes (ascii ''it is'') = ascii ''it is''"
proof -
  have h: "\<forall>c \<in> set (ascii ''it is''). \<not> curly c"
    by (simp add: ascii_def curly_def)
  have "replace_smart_quotes [0x201C, 0x61, 0x2019, 0x201D] =
        map straighten [0x201C, 0x61, 0x2019, 0x201D]"
    using replace_smart_quotes_only_curly [of "[0x201C, 0x61, 0x2019, 0x201D]"] by blast
  then have a: "replace_smart_quotes [0x201C, 0x61, 0x2019, 0x201D] = [0x22, 0x61, 0x27, 0x22]"
    by (simp add: straighten_def)
  from replace_smart_quotes_only_curly [of "ascii ''it is''"] h
  have "replace_smart_quotes (ascii ''it is'') = ascii ''it is''" by blast
  with a h show ?thesis by blast
qed













section \<open>Truth values of floats\<close>

lemma tiny_float_zero: "float_is_zero (ascii ''1e-400'')"
  by (simp add: float_is_zero_def ascii_def isdigit_def frac_part_def exp_part_def
      exponent_of_def dec_def)

lemma tiny_float_falsy: "\<not> truthy (JFloat (ascii ''1e-400''))"
  by (simp add: tiny_float_zero)

lemma float_zero_examples:
  "float_is_zero (ascii ''-0.0'')" "float_is_zero (ascii ''0e5'')"
  "\<not> float_is_zero (ascii ''5e-324'')" "\<not> float_is_zero (ascii ''0.1'')"
  "\<not> float_is_zero (ascii ''NaN'')" "\<not> float_is_zero (ascii ''-Infinity'')"
  "float_is_zero (ascii ''2.47e-324'')" "\<not> float_is_zero (ascii ''2.48e-324'')"
  by (simp_all add: float_is_zero_def ascii_def isdigit_def frac_part_def exp_part_def
      exponent_of_def dec_def)

lemma tiny_float_loads: "json_loads (ascii ''1e-400'') = Some (JFloat (ascii ''1e-400''))"
  by (simp add: json_loads_def ascii_def jws_def lex_scalar_def lex_number_def startswith_def
      isdigit_def frac_part_def exp_part_def dec_def)

section \<open>The streaming decoder: properties\<close>

lemma strip_Nil: "strip [] = []"
  by (simp add: strip_def lstrip_def rstrip_def)

lemma safe_json_loads_Nil: "safe_json_loads [] = JNull"
  by (simp add: safe_json_loads_def json_loads_def)

lemma data_str_of_Nil: "data_str_of [] = []"
  by (simp add: data_str_of_def startswith_def ascii_def strip_Nil)

lemma blank_not_sentinel: "strip raw = [] \<Longrightarrow> \<not> is_sentinel raw"
  by (simp add: is_sentinel_def data_str_of_Nil ascii_def)

lemma blank_event: "strip raw = [] \<Longrightarrow> process_event (line_event raw) a = a"
  by (simp add: line_event_def data_str_of_Nil safe_json_loads_Nil process_event_def)

lemma not_dict_event: "\<not> is_dict ev \<Longrightarrow> process_event ev a = a"
  by (cases ev) (simp_all add: process_event_def)

lemma stream_loop_step:
  "stream_loop (raw # rest) a =
     (if is_sentinel raw then (a\<lparr>done_flag := True\<rparr>, rest)
      else stream_loop rest (process_event (line_event raw) a))"
proof (cases "strip raw = []")
  case True
  then show ?thesis
    by (simp add: blank_not_sentinel blank_event)
next
  case False
  then show ?thesis
    by (simp add: is_sentinel_def line_event_def Let_def)
qed

lemma stream_loop_no_sentinel:
  "\<not> list_ex is_sentinel pre \<Longrightarrow>
   stream_loop (pre @ rest) a = stream_loop rest (fst (stream_loop pre a))"
proof (induction pre arbitrary: a)
  case Nil
  then show ?case by simp
next
  case (Cons raw pre)
  then show ?case
    by (simp add: stream_loop_step del: stream_loop.simps)
qed

lemma stream_loop_sentinel:
  "\<not> list_ex is_sentinel pre \<Longrightarrow> is_sentinel line \<Longrightarrow>
   stream_loop (pre @ line # post) a = ((fst (stream_loop pre a))\<lparr>done_flag := True\<rparr>, post)"
  by (simp add: stream_loop_no_sentinel stream_loop_step del: stream_loop.simps)

lemma append_str_parts: "append_str v parts = parts @ append_str v []"
  by (cases v) simp_all

lemma take_fields_content:
  "content_parts (take_fields v a) = content_parts a @ content_parts (take_fields v init_acc)"
  by (cases v) (simp_all add: init_acc_def append_str_parts [of _ "content_parts a"])

lemma take_fields_chunks: "chunks (take_fields v a) = chunks a"
  by (cases v) simp_all

lemma take_fields_done: "done_flag (take_fields v a) = done_flag a"
  by (cases v) simp_all

lemma process_event_content:
  "content_parts (process_event ev a) = content_parts a @ event_contents ev"
proof (cases ev)
  case (JObj d)
  show ?thesis
  proof (cases "dict_get d (ascii ''choices'')")
    case (JArr xs)
    show ?thesis
    proof (cases xs)
      case Nil
      with JObj JArr show ?thesis
        by (simp add: process_event_def event_contents_def init_acc_def)
    next
      case (Cons ch t)
      have "content_parts (take_fields m (take_fields dl (a\<lparr>chunks := chunks a + 1\<rparr>))) =
            content_parts a @
            content_parts (take_fields m (take_fields dl (init_acc\<lparr>chunks := chunks init_acc + 1\<rparr>)))"
        for m dl
        using take_fields_content [of m "take_fields dl (a\<lparr>chunks := chunks a + 1\<rparr>)"]
          take_fields_content [of dl "a\<lparr>chunks := chunks a + 1\<rparr>"]
          take_fields_content [of m "take_fields dl (init_acc\<lparr>chunks := chunks init_acc + 1\<rparr>)"]
          take_fields_content [of dl "init_acc\<lparr>chunks := chunks init_acc + 1\<rparr>"]
        by (simp add: init_acc_def)
      with JObj JArr Cons show ?thesis
        by (simp add: process_event_def event_contents_def Let_def)
    qed
  qed (use JObj in \<open>simp_all add: process_event_def event_contents_def init_acc_def\<close>)
qed (simp_all add: process_event_def event_contents_def init_acc_def)

lemma process_event_chunks:
  "chunks (process_event ev a) = chunks a + (if is_dict ev then 1 else 0)"
  by (cases ev)
     (auto simp: process_event_def Let_def take_fields_chunks split: json.splits list.splits)

lemma process_event_done: "done_flag (process_event ev a) = done_flag a"
  by (cases ev)
     (auto simp: process_event_def Let_def take_fields_done split: json.splits list.splits)

lemma stream_loop_content:
  "content_parts (fst (stream_loop lines a)) =
   content_parts a @
   concat (map (\<lambda>r. event_contents (line_event r)) (takeWhile (\<lambda>r. \<not> is_sentinel r) lines))"
proof (induction lines arbitrary: a)
  case Nil
  then show ?case by simp
next
  case (Cons raw lines)
  then show ?case
    by (simp add: stream_loop_step process_event_content del: stream_loop.simps)
qed

lemma stream_loop_chunks:
  "chunks (fst (stream_loop lines a)) =
   chunks a +
   length (filter (\<lambda>r. is_dict (line_event r)) (takeWhile (\<lambda>r. \<not> is_sentinel r) lines))"
proof (induction lines arbitrary: a)
  case Nil
  then show ?case by simp
next
  case (Cons raw lines)
  then show ?case
    by (simp add: stream_loop_step process_event_chunks del: stream_loop.simps)
qed

lemma stream_loop_filter:
  "fst (stream_loop (filter (\<lambda>r. \<not> malformed r) lines) a) = fst (stream_loop lines a)"
proof (induction lines arbitrary: a)
  case Nil
  then show ?case by simp
next
  case (Cons raw lines)
  show ?case
  proof (cases "malformed raw")
    case True
    then have "\<not> is_sentinel raw" and "process_event (line_event raw) a = a"
      by (simp_all add: malformed_def not_dict_event)
    with True Cons show ?thesis
      by (simp add: stream_loop_step del: stream_loop.simps)
  next
    case False
    with Cons show ?thesis
      by (simp add: stream_loop_step del: stream_loop.simps)
  qed
qed

subsection \<open>Concrete events\<close>

lemmas eval_text =
  strip_def lstrip_def rstrip_def isspace_def ascii_def data_str_of_def startswith_def

lemmas eval_json = safe_json_loads_def json_loads_def jws_def

lemma not_json_event:
  "line_event (ascii ''data: not json'') = JNull"
  "\<not> is_sentinel (ascii ''data: not json'')"
  "strip (ascii ''data: not json'') \<noteq> []"
  by (simp_all add: line_event_def is_sentinel_def eval_text eval_json lex_scalar_def
      lex_number_def isdigit_def)

lemma Hel_event:
  "line_event (ascii ''data: {\"choices\":[{\"delta\":{\"content\":\"Hel\"}}]}'') =
   JObj [(ascii ''choices'', JArr [JObj [(ascii ''delta'',
          JObj [(ascii ''content'', JStr (ascii ''Hel''))])]])]"
  "\<not> is_sentinel (ascii ''data: {\"choices\":[{\"delta\":{\"content\":\"Hel\"}}]}'')"
  by (simp_all add: line_event_def is_sentinel_def eval_text eval_json)

lemma lo_event:
  "line_event (ascii ''data: {\"choices\":[{\"delta\":{\"content\":\"lo\"}}]}'') =
   JObj [(ascii ''choices'', JArr [JObj [(ascii ''delta'',
          JObj [(ascii ''content'', JStr (ascii ''lo''))])]])]"
  "\<not> is_sentinel (ascii ''data: {\"choices\":[{\"delta\":{\"content\":\"lo\"}}]}'')"
  by (simp_all add: line_event_def is_sentinel_def eval_text eval_json)

lemma DONE_sentinel: "is_sentinel (ascii ''data: [DONE]'')"
  by (simp add: is_sentinel_def eval_text)

lemma delta_content_event:
  "s \<noteq> [] \<Longrightarrow>
   process_event
     (JObj [(ascii ''choices'', JArr [JObj [(ascii ''delta'',
             JObj [(ascii ''content'', JStr s)])]])]) a =
   a\<lparr>content_parts := content_parts a @ [s], chunks := chunks a + 1\<rparr>"
  by (simp add: process_event_def dict_get_def dict_get_default_def ascii_def py_or_def)

lemma Hello_loop:
  "stream_loop
     [ascii ''data: {\"choices\":[{\"delta\":{\"content\":\"Hel\"}}]}'',
      ascii ''data: {\"choices\":[{\"delta\":{\"content\":\"lo\"}}]}'',
      ascii ''data: [DONE]''] init_acc =
   (\<lparr>content_parts = [ascii ''Hel'', ascii ''lo''], reasoning_parts = [], done_flag = True,
     chunks = 2\<rparr>, [])"
proof -
  have ne: "ascii ''Hel'' \<noteq> []" "ascii ''lo'' \<noteq> []"
    by (simp_all add: ascii_def)
  show ?thesis
    by (simp add: stream_loop_step Hel_event lo_event DONE_sentinel delta_content_event ne
        init_acc_def del: stream_loop.simps)
qed

lemma Hello_finish:
  "finish_stream \<lparr>content_parts = [ascii ''Hel'', ascii ''lo''], reasoning_parts = [],
     done_flag = d, chunks = n\<rparr> = (ascii ''Hello'', [])"
proof -
  have c: "strip (concat [ascii ''Hel'', ascii ''lo'']) = ascii ''Hello''"
    by (simp add: eval_text)
  have s: "think_search (ascii ''Hello'') = None"
    by (simp add: think_search_def ascii_def istartswith_def imatch_def)
  have ne: "ascii ''Hello'' \<noteq> []"
    by (simp add: ascii_def)
  show ?thesis
    using c s ne
    by (simp add: finish_stream_def split_thinking_and_answer_from_content_def strip_Nil)
qed

lemma Hello_stream:
  "parse_stream_and_accumulate
     [ascii ''data: {\"choices\":[{\"delta\":{\"content\":\"Hel\"}}]}'',
      ascii ''data: {\"choices\":[{\"delta\":{\"content\":\"lo\"}}]}'',
      ascii ''data: [DONE]''] = (ascii ''Hello'', [], True, 2)"
  by (simp add: parse_stream_and_accumulate_def Hello_loop Hello_finish
      del: stream_loop.simps)

text \<open>
  Claim C5. The three lines of the specification's example give content \<open>Hello\<close>, empty
  reasoning, the done flag and event count 2. In general the loop stops at the first
  sentinel line: it sets the done flag and leaves every later line unread, and its
  accumulator is the one of the lines before the sentinel. The content fragments are
  those of the events before the sentinel, in the order of arrival.
\<close>

theorem stream_decoder_sentinel:
  "parse_stream_and_accumulate
     [ascii ''data: {\"choices\":[{\"delta\":{\"content\":\"Hel\"}}]}'',
      ascii ''data: {\"choices\":[{\"delta\":{\"content\":\"lo\"}}]}'',
      ascii ''data: [DONE]''] = (ascii ''Hello'', [], True, 2) \<and>
   (\<not> list_ex is_sentinel pre \<and> is_sentinel line \<longrightarrow>
      stream_loop (pre @ line # post) a =
        ((fst (stream_loop pre a))\<lparr>done_flag := True\<rparr>, post)) \<and>
   content_parts (fst (stream_loop lines init_acc)) =
     concat (map (\<lambda>r. event_contents (line_event r))
                 (takeWhile (\<lambda>r. \<not> is_sentinel r) lines))"
  using Hello_stream stream_loop_sentinel [of pre line post a]
    stream_loop_content [of lines init_acc]
  by (simp add: init_acc_def del: stream_loop.simps)

theorem stream_decoder_sentinel_witness:
  "stream_loop
     ([ascii ''data: {\"choices\":[{\"delta\":{\"content\":\"Hel\"}}]}''] @
      ascii ''data: [DONE]'' #
      [ascii ''data: {\"choices\":[{\"delta\":{\"content\":\"lo\"}}]}'']) init_acc =
   (\<lparr>content_parts = [ascii ''Hel''], reasoning_parts = [], done_flag = True, chunks = 1\<rparr>,
    [ascii ''data: {\"choices\":[{\"delta\":{\"content\":\"lo\"}}]}''])"
proof -
  have h: "\<not> list_ex is_sentinel [ascii ''data: {\"choices\":[{\"delta\":{\"content\":\"Hel\"}}]}'']
           \<and> is_sentinel (ascii ''data: [DONE]'')"
    by (simp add: Hel_event DONE_sentinel)
  have ne: "ascii ''Hel'' \<noteq> []"
    by (simp add: ascii_def)
  have p: "fst (stream_loop [ascii ''data: {\"choices\":[{\"delta\":{\"content\":\"Hel\"}}]}''] init_acc)
           = \<lparr>content_parts = [ascii ''Hel''], reasoning_parts = [], done_flag = False, chunks = 1\<rparr>"
    by (simp add: stream_loop_step Hel_event delta_content_event ne init_acc_def
        del: stream_loop.simps(2))
  from stream_decoder_sentinel
    [of "[ascii ''data: {\"choices\":[{\"delta\":{\"content\":\"Hel\"}}]}'']" "ascii ''data: [DONE]''"
        "[ascii ''data: {\"choices\":[{\"delta\":{\"content\":\"lo\"}}]}'']" init_acc] h
  have "stream_loop
     ([ascii ''data: {\"choices\":[{\"delta\":{\"content\":\"Hel\"}}]}''] @
      ascii ''data: [DONE]'' #
      [ascii ''data: {\"choices\":[{\"delta\":{\"content\":\"lo\"}}]}'']) init_acc =
     ((fst (stream_loop [ascii ''data: {\"choices\":[{\"delta\":{\"content\":\"Hel\"}}]}''] init_acc))
        \<lparr>done_flag := True\<rparr>,
      [ascii ''data: {\"choices\":[{\"delta\":{\"content\":\"lo\"}}]}''])"
    by blast
  then show ?thesis
    by (simp only: p) simp
qed

text \<open>
  Claim C6. Event lines that are not valid JSON, or that parse to a value that is no
  mapping, are skipped: the decoder returns what it returns on the stream without them
  (never an error state), and the event count is the number of lines before the
  sentinel that parse to a mapping.
\<close>

theorem malformed_events_skipped:
  "parse_stream_and_accumulate lines =
     parse_stream_and_accumulate (filter (\<lambda>r. \<not> malformed r) lines) \<and>
   snd (snd (snd (parse_stream_and_accumulate lines))) =
     length (filter (\<lambda>r. is_dict (line_event r)) (takeWhile (\<lambda>r. \<not> is_sentinel r) lines))"
  using stream_loop_filter [of lines init_acc] stream_loop_chunks [of lines init_acc]
  by (simp add: parse_stream_and_accumulate_def init_acc_def split_beta Let_def
      del: stream_loop.simps)

theorem malformed_events_skipped_witness:
  "parse_stream_and_accumulate
     [ascii ''data: not json'',
      ascii ''data: {\"choices\":[{\"delta\":{\"content\":\"Hel\"}}]}'',
      ascii ''data: {\"choices\":[{\"delta\":{\"content\":\"lo\"}}]}'',
      ascii ''data: [DONE]''] = (ascii ''Hello'', [], True, 2)"
proof -
  have f: "filter (\<lambda>r. \<not> malformed r)
     [ascii ''data: not json'',
      ascii ''data: {\"choices\":[{\"delta\":{\"content\":\"Hel\"}}]}'',
      ascii ''data: {\"choices\":[{\"delta\":{\"content\":\"lo\"}}]}'',
      ascii ''data: [DONE]''] =
     [ascii ''data: {\"choices\":[{\"delta\":{\"content\":\"Hel\"}}]}'',
      ascii ''data: {\"choices\":[{\"delta\":{\"content\":\"lo\"}}]}'',
      ascii ''data: [DONE]'']"
    by (simp add: malformed_def not_json_event Hel_event lo_event DONE_sentinel)
  from malformed_events_skipped
    [of "[ascii ''data: not json'',
      ascii ''data: {\"choices\":[{\"delta\":{\"content\":\"Hel\"}}]}'',
      ascii ''data: {\"choices\":[{\"delta\":{\"content\":\"lo\"}}]}'',
      ascii ''data: [DONE]'']"]
  show ?thesis
    by (simp only: f Hello_stream)
qed

subsection \<open>Inline reasoning in a stream\<close>

lemma Answer_hi_event:
  "line_event (ascii ''data: {\"choices\":[{\"delta\":{\"content\":\"Answer: hi\"}}]}'') =
   JObj [(ascii ''choices'', JArr [JObj [(ascii ''delta'',
          JObj [(ascii ''content'', JStr (ascii ''Answer: hi''))])]])]"
  "\<not> is_sentinel (ascii ''data: {\"choices\":[{\"delta\":{\"content\":\"Answer: hi\"}}]}'')"
  by (simp_all add: line_event_def is_sentinel_def eval_text eval_json)

lemma Answer_hi_loop:
  "fst (stream_loop [ascii ''data: {\"choices\":[{\"delta\":{\"content\":\"Answer: hi\"}}]}'']
          init_acc) =
   \<lparr>content_parts = [ascii ''Answer: hi''], reasoning_parts = [], done_flag = False,
     chunks = 1\<rparr>"
proof -
  have ne: "ascii ''Answer: hi'' \<noteq> []"
    by (simp add: ascii_def)
  show ?thesis
    by (simp add: stream_loop_step Answer_hi_event delta_content_event ne init_acc_def
        del: stream_loop.simps(2))
qed

lemma Answer_hi_strip: "strip (ascii ''Answer: hi'') = ascii ''Answer: hi''"
  by (simp add: eval_text)

lemma Answer_hi_search: "think_search (ascii ''Answer: hi'') = None"
  by (simp add: think_search_def ascii_def istartswith_def imatch_def)

lemma Answer_hi_clean: "clean_answer (ascii ''Answer: hi'') = ascii ''hi''"
  by (simp add: clean_answer_def sub_label_def istartswith_def imatch_def fence_def endswith_def
      eval_text)

text \<open>
  Claim C1 as stated fails. The stream below has no reasoning fragment and the content
  \<open>Answer: hi\<close>. The splitting algorithm, with its de-scaffolding, gives the answer
  \<open>hi\<close>; the decoder returns the content \<open>Answer: hi\<close>, because it takes the result of
  the splitting only when that found reasoning.
\<close>

theorem stream_split_counterexample:
  "reasoning_parts
     (fst (stream_loop [ascii ''data: {\"choices\":[{\"delta\":{\"content\":\"Answer: hi\"}}]}'']
             init_acc)) = [] \<and>
   concat (content_parts
     (fst (stream_loop [ascii ''data: {\"choices\":[{\"delta\":{\"content\":\"Answer: hi\"}}]}'']
             init_acc))) = ascii ''Answer: hi'' \<and>
   split_thinking_and_answer_from_content (ascii ''Answer: hi'') = ([], ascii ''hi'') \<and>
   parse_stream_and_accumulate
     [ascii ''data: {\"choices\":[{\"delta\":{\"content\":\"Answer: hi\"}}]}''] =
   (ascii ''Answer: hi'', [], False, 1) \<and>
   ascii ''Answer: hi'' \<noteq> ascii ''hi''"
proof -
  have ne: "ascii ''Answer: hi'' \<noteq> []" "ascii ''Answer: hi'' \<noteq> ascii ''hi''"
    by (simp_all add: ascii_def)
  have s: "split_thinking_and_answer_from_content (ascii ''Answer: hi'') = ([], ascii ''hi'')"
    using ne by (simp add: split_thinking_and_answer_from_content_def Answer_hi_search
        Answer_hi_clean)
  have p: "parse_stream_and_accumulate
     [ascii ''data: {\"choices\":[{\"delta\":{\"content\":\"Answer: hi\"}}]}''] =
     (ascii ''Answer: hi'', [], False, 1)"
    using ne
    by (simp add: parse_stream_and_accumulate_def Answer_hi_loop finish_stream_def strip_Nil
        Answer_hi_strip s del: stream_loop.simps)
  show ?thesis
    using ne s p by (simp add: Answer_hi_loop del: stream_loop.simps)
qed

lemma think_pl_event:
  "line_event (ascii ''data: {\"choices\":[{\"delta\":{\"content\":\"<think>pl\"}}]}'') =
   JObj [(ascii ''choices'', JArr [JObj [(ascii ''delta'',
          JObj [(ascii ''content'', JStr (ascii ''<think>pl''))])]])]"
  "\<not> is_sentinel (ascii ''data: {\"choices\":[{\"delta\":{\"content\":\"<think>pl\"}}]}'')"
  by (simp_all add: line_event_def is_sentinel_def eval_text eval_json)

lemma an_result_event:
  "line_event (ascii ''data: {\"choices\":[{\"delta\":{\"content\":\"an</think>result\"}}]}'') =
   JObj [(ascii ''choices'', JArr [JObj [(ascii ''delta'',
          JObj [(ascii ''content'', JStr (ascii ''an</think>result''))])]])]"
  "\<not> is_sentinel (ascii ''data: {\"choices\":[{\"delta\":{\"content\":\"an</think>result\"}}]}'')"
  by (simp_all add: line_event_def is_sentinel_def eval_text eval_json)

lemma plan_loop:
  "fst (stream_loop
          [ascii ''data: {\"choices\":[{\"delta\":{\"content\":\"<think>pl\"}}]}'',
           ascii ''data: {\"choices\":[{\"delta\":{\"content\":\"an</think>result\"}}]}'']
          init_acc) =
   \<lparr>content_parts = [ascii ''<think>pl'', ascii ''an</think>result''], reasoning_parts = [],
     done_flag = False, chunks = 2\<rparr>"
proof -
  have ne: "ascii ''<think>pl'' \<noteq> []" "ascii ''an</think>result'' \<noteq> []"
    by (simp_all add: ascii_def)
  show ?thesis
    by (simp add: stream_loop_step think_pl_event an_result_event delta_content_event ne
        init_acc_def del: stream_loop.simps(2))
qed

lemma plan_search:
  "think_search (ascii ''<think>plan</think>result'') = Some ([], ascii ''plan'', ascii ''result'')"
  by (simp add: think_search_def ascii_def istartswith_def imatch_def)

lemma result_search: "think_search (ascii ''result'') = None"
  by (simp add: think_search_def ascii_def istartswith_def imatch_def)

lemma plan_sub: "think_sub (ascii ''<think>plan</think>result'') = ascii ''result''"
  by (subst think_sub.simps, simp add: plan_search, subst think_sub.simps,
      simp add: result_search)

lemma result_clean: "clean_answer (ascii ''result'') = ascii ''result''"
  by (simp add: clean_answer_def sub_label_def istartswith_def imatch_def fence_def endswith_def
      eval_text)

lemma finish_stream_inline:
  assumes "strip (concat (reasoning_parts a)) = []"
    and "c = strip (concat (content_parts a))"
    and "c \<noteq> []"
    and "\<not> blank_first_block c"
  shows "finish_stream a =
         (case think_search c of
            Some (pre, body, post) \<Rightarrow> (clean_answer (strip (think_sub c)), strip body)
          | None \<Rightarrow> (c, []))"
proof (cases "think_search c")
  case None
  with assms(1,2,3) show ?thesis
    by (simp add: finish_stream_def split_thinking_and_answer_from_content_def)
next
  case (Some m)
  obtain pre body post where m: "m = (pre, body, post)"
    by (cases m) auto
  with Some assms(4) have "strip body \<noteq> []"
    by (simp add: blank_first_block_def)
  with Some m assms(1,2,3) show ?thesis
    by (simp add: finish_stream_def split_thinking_and_answer_from_content_def)
qed

text \<open>
  Claim C1, amended. Let no reasoning have come through the dedicated channel, let the
  concatenated, trimmed content \<open>c\<close> be not empty, and let the first inline marker block
  of \<open>c\<close>, if there is one, enclose text that is not blank. If \<open>c\<close> has a marker block, the
  decoder returns the text enclosed by the first one, trimmed, as reasoning and \<open>c\<close> with
  every marker block removed, trimmed and de-scaffolded, as content. If \<open>c\<close> has none,
  the decoder returns \<open>c\<close> as it is, not de-scaffolded, with empty reasoning.
\<close>

theorem stream_inline_reasoning:
  assumes "strip (concat (reasoning_parts (fst (stream_loop lines init_acc)))) = []"
    and "c = strip (concat (content_parts (fst (stream_loop lines init_acc))))"
    and "c \<noteq> []"
    and "\<not> blank_first_block c"
  shows "(fst (parse_stream_and_accumulate lines),
          fst (snd (parse_stream_and_accumulate lines))) =
         (case think_search c of
            Some (pre, body, post) \<Rightarrow> (clean_answer (strip (think_sub c)), strip body)
          | None \<Rightarrow> (c, []))"
  using finish_stream_inline [OF assms]
  by (simp add: parse_stream_and_accumulate_def split_beta Let_def del: stream_loop.simps)

theorem stream_inline_reasoning_witness:
  "(fst (parse_stream_and_accumulate
          [ascii ''data: {\"choices\":[{\"delta\":{\"content\":\"<think>pl\"}}]}'',
           ascii ''data: {\"choices\":[{\"delta\":{\"content\":\"an</think>result\"}}]}'']),
    fst (snd (parse_stream_and_accumulate
          [ascii ''data: {\"choices\":[{\"delta\":{\"content\":\"<think>pl\"}}]}'',
           ascii ''data: {\"choices\":[{\"delta\":{\"content\":\"an</think>result\"}}]}'']))) =
   (ascii ''result'', ascii ''plan'') \<and>
   (fst (parse_stream_and_accumulate
          [ascii ''data: {\"choices\":[{\"delta\":{\"content\":\"Answer: hi\"}}]}'']),
    fst (snd (parse_stream_and_accumulate
          [ascii ''data: {\"choices\":[{\"delta\":{\"content\":\"Answer: hi\"}}]}'']))) =
   (ascii ''Answer: hi'', [])"
proof -
  have c: "ascii ''<think>plan</think>result'' =
           strip (concat (content_parts (fst (stream_loop
             [ascii ''data: {\"choices\":[{\"delta\":{\"content\":\"<think>pl\"}}]}'',
              ascii ''data: {\"choices\":[{\"delta\":{\"content\":\"an</think>result\"}}]}'']
             init_acc))))"
    by (simp only: plan_loop) (simp add: eval_text)
  have r: "strip (concat (reasoning_parts (fst (stream_loop
             [ascii ''data: {\"choices\":[{\"delta\":{\"content\":\"<think>pl\"}}]}'',
              ascii ''data: {\"choices\":[{\"delta\":{\"content\":\"an</think>result\"}}]}'']
             init_acc)))) = []"
    by (simp only: plan_loop) (simp add: strip_Nil)
  have ne: "ascii ''<think>plan</think>result'' \<noteq> []"
    by (simp add: ascii_def)
  have e: "strip (ascii ''plan'') = ascii ''plan''" "strip (ascii ''result'') = ascii ''result''"
    "ascii ''plan'' \<noteq> []"
    by (simp_all add: eval_text)
  have nb: "\<not> blank_first_block (ascii ''<think>plan</think>result'')"
    by (simp add: blank_first_block_def plan_search e)
  have 1: "(fst (parse_stream_and_accumulate
          [ascii ''data: {\"choices\":[{\"delta\":{\"content\":\"<think>pl\"}}]}'',
           ascii ''data: {\"choices\":[{\"delta\":{\"content\":\"an</think>result\"}}]}'']),
    fst (snd (parse_stream_and_accumulate
          [ascii ''data: {\"choices\":[{\"delta\":{\"content\":\"<think>pl\"}}]}'',
           ascii ''data: {\"choices\":[{\"delta\":{\"content\":\"an</think>result\"}}]}'']))) =
   (ascii ''result'', ascii ''plan'')"
    using stream_inline_reasoning [OF r c ne nb]
    by (simp only: plan_search plan_sub e result_clean option.case prod.case)
  have c2: "ascii ''Answer: hi'' =
           strip (concat (content_parts (fst (stream_loop
             [ascii ''data: {\"choices\":[{\"delta\":{\"content\":\"Answer: hi\"}}]}'']
             init_acc))))"
    by (simp only: Answer_hi_loop) (simp add: eval_text)
  have r2: "strip (concat (reasoning_parts (fst (stream_loop
             [ascii ''data: {\"choices\":[{\"delta\":{\"content\":\"Answer: hi\"}}]}'']
             init_acc)))) = []"
    by (simp only: Answer_hi_loop) (simp add: strip_Nil)
  have ne2: "ascii ''Answer: hi'' \<noteq> []"
    by (simp add: ascii_def)
  have nb2: "\<not> blank_first_block (ascii ''Answer: hi'')"
    by (simp add: blank_first_block_def Answer_hi_search)
  have 2: "(fst (parse_stream_and_accumulate
          [ascii ''data: {\"choices\":[{\"delta\":{\"content\":\"Answer: hi\"}}]}'']),
    fst (snd (parse_stream_and_accumulate
          [ascii ''data: {\"choices\":[{\"delta\":{\"content\":\"Answer: hi\"}}]}'']))) =
   (ascii ''Answer: hi'', [])"
    using stream_inline_reasoning [OF r2 c2 ne2 nb2]
    by (simp only: Answer_hi_search option.case)
  from 1 2 show ?thesis
    by (rule conjI)
qed

subsection \<open>A reasoning field that is the float zero\<close>

lemma tiny_number:
  "lex_scalar (0x31 # 0x65 # 0x2D # 0x34 # 0x30 # 0x30 # 0x2C # r) =
   Some (JFloat (ascii ''1e-400''), 0x2C # r)"
  by (simp add: lex_scalar_def lex_number_def startswith_def ascii_def isdigit_def frac_part_def
      exp_part_def)

lemma tiny_reasoning_event:
  "line_event (ascii ''data: {\"choices\":[{\"delta\":{\"reasoning\":1e-400,\"thoughts\":\"T\",\"content\":\"<think>a</think>b\"}}]}'') =
   JObj [(ascii ''choices'', JArr [JObj [(ascii ''delta'',
          JObj [(ascii ''reasoning'', JFloat (ascii ''1e-400'')),
                (ascii ''thoughts'', JStr (ascii ''T'')),
                (ascii ''content'', JStr (ascii ''<think>a</think>b''))])]])]"
  "\<not> is_sentinel (ascii ''data: {\"choices\":[{\"delta\":{\"reasoning\":1e-400,\"thoughts\":\"T\",\"content\":\"<think>a</think>b\"}}]}'')"
  by (simp_all add: line_event_def is_sentinel_def eval_text eval_json tiny_number)

lemma tiny_reasoning_fields:
  "process_event
     (JObj [(ascii ''choices'', JArr [JObj [(ascii ''delta'',
             JObj [(ascii ''reasoning'', JFloat (ascii ''1e-400'')),
                   (ascii ''thoughts'', JStr (ascii ''T'')),
                   (ascii ''content'', JStr (ascii ''<think>a</think>b''))])]])]) init_acc =
   \<lparr>content_parts = [ascii ''<think>a</think>b''], reasoning_parts = [ascii ''T''],
     done_flag = False, chunks = 1\<rparr>"
proof -
  have k: "ascii ''reasoning'' \<noteq> ascii ''thoughts''" "ascii ''reasoning'' \<noteq> ascii ''content''"
    "ascii ''thoughts'' \<noteq> ascii ''content''" "ascii ''content'' \<noteq> ascii ''thoughts''"
    "ascii ''content'' \<noteq> ascii ''reasoning''" "ascii ''thoughts'' \<noteq> ascii ''reasoning''"
    "ascii ''choices'' \<noteq> ascii ''delta''" "ascii ''delta'' \<noteq> ascii ''message''"
    "ascii ''message'' \<noteq> ascii ''delta''"
    "ascii ''T'' \<noteq> []" "ascii ''<think>a</think>b'' \<noteq> []"
    by (simp_all add: ascii_def)
  show ?thesis
    using k tiny_float_falsy
    by (simp add: process_event_def dict_get_def dict_get_default_def py_or_def init_acc_def)
qed

text \<open>
  With a \<^verbatim>\<open>reasoning\<close> field that is false in Python's sense (here the float zero), the
  \<^verbatim>\<open>thoughts\<close> field is the reasoning of the event, and the inline markers of the content
  are not looked at.
\<close>

lemma tiny_reasoning_stream:
  "parse_stream_and_accumulate
     [ascii ''data: {\"choices\":[{\"delta\":{\"reasoning\":1e-400,\"thoughts\":\"T\",\"content\":\"<think>a</think>b\"}}]}''] =
   (ascii ''<think>a</think>b'', ascii ''T'', False, 1)"
proof -
  have l: "fst (stream_loop
     [ascii ''data: {\"choices\":[{\"delta\":{\"reasoning\":1e-400,\"thoughts\":\"T\",\"content\":\"<think>a</think>b\"}}]}'']
     init_acc) =
     \<lparr>content_parts = [ascii ''<think>a</think>b''], reasoning_parts = [ascii ''T''],
       done_flag = False, chunks = 1\<rparr>"
    by (simp add: stream_loop_step tiny_reasoning_event tiny_reasoning_fields
        del: stream_loop.simps(2))
  have s: "strip (ascii ''<think>a</think>b'') = ascii ''<think>a</think>b''"
    "strip (ascii ''T'') = ascii ''T''" "ascii ''T'' \<noteq> []"
    by (simp_all add: eval_text)
  show ?thesis
    using s by (simp add: parse_stream_and_accumulate_def l finish_stream_def
        del: stream_loop.simps)
qed

section \<open>The orchestrating call: properties\<close>

lemma default_url:
  "rstrip_chr 0x2F (strip (ascii ''http://127.0.0.1:8082'')) = ascii ''http://127.0.0.1:8082''"
  by (simp add: rstrip_chr_def eval_text)

text \<open>
  Claim C9 as stated fails: the server URL is checked before the prompt, so with an empty
  server URL an empty prompt gives the \<^verbatim>\<open>ValueError\<close>, not the five empty strings.
\<close>

theorem empty_prompt_counterexample:
  "run no_lib no_server (default_args\<lparr>server_url := []\<rparr>) = (Inl ValueError, [])"
  by (simp add: run_def default_args_def rstrip_chr_def strip_Nil)

text \<open>
  Claim C9, amended. When the prompt is empty or only whitespace, the call sends no
  request, whatever the other parameters are; it returns the five empty strings when the
  server URL is not empty after trimming whitespace and trailing slashes, and raises the
  \<^verbatim>\<open>ValueError\<close> of an empty server URL otherwise.
\<close>

theorem empty_prompt_no_request:
  assumes "strip (prompt A) = []"
  shows "run L S A =
         (if rstrip_chr 0x2F (strip (server_url A)) = [] then Inl ValueError
          else Inr ([], [], [], [], []), [])"
  using assms by (simp add: run_def)

theorem empty_prompt_no_request_witness:
  "run no_lib demo_server (default_args\<lparr>prompt := [0x20, 0x0A, 0x09]\<rparr>) =
   (Inr ([], [], [], [], []), [])"
proof -
  have p: "strip (prompt (default_args\<lparr>prompt := [0x20, 0x0A, 0x09]\<rparr>)) = []"
    by (simp add: eval_text)
  have u: "rstrip_chr 0x2F (strip (server_url (default_args\<lparr>prompt := [0x20, 0x0A, 0x09]\<rparr>)))
           \<noteq> []"
    by (simp add: default_args_def default_url) (simp add: ascii_def)
  show ?thesis
    using empty_prompt_no_request [OF p, of no_lib demo_server] u by simp
qed

subsection \<open>The model identifier\<close>



















text \<open>
  A body that is not JSON, in the single-shot branch: the exception of \<^verbatim>\<open>resp.json()\<close> ends
  the call as \<^verbatim>\<open>Request failed\<close>.
\<close>

lemma not_json_body: "body_json resp = Inl e \<Longrightarrow> decode_sync L A resp m = Inl (RequestFailed e)"
  by (simp add: decode_sync_def)


section \<open>The splitter: properties\<close>

subsection \<open>What de-scaffolding removes\<close>

lemma lstrip_split: "\<exists>u. s = u @ lstrip s \<and> (\<forall>x \<in> set u. isspace x)"
proof -
  have "s = takeWhile isspace s @ lstrip s"
    by (simp add: lstrip_def)
  moreover have "\<forall>x \<in> set (takeWhile isspace s). isspace x"
    by (auto dest: set_takeWhileD)
  ultimately show ?thesis by blast
qed

lemma rev_dropWhile_split: "s = rev (dropWhile P (rev s)) @ rev (takeWhile P (rev s))"
proof -
  have "rev (dropWhile P (rev s)) @ rev (takeWhile P (rev s)) =
        rev (takeWhile P (rev s) @ dropWhile P (rev s))"
    by (simp only: rev_append)
  also have "\<dots> = s"
    by (simp only: takeWhile_dropWhile_id rev_rev_ident)
  finally show ?thesis by simp
qed

lemma rstrip_split: "\<exists>v. s = rstrip s @ v \<and> (\<forall>x \<in> set v. isspace x)"
proof -
  have "s = rstrip s @ rev (takeWhile isspace (rev s))"
    unfolding rstrip_def by (rule rev_dropWhile_split)
  moreover have "\<forall>x \<in> set (rev (takeWhile isspace (rev s))). isspace x"
    by (auto dest: set_takeWhileD)
  ultimately show ?thesis by blast
qed

lemma strip_split:
  "\<exists>u v. s = u @ strip s @ v \<and> (\<forall>x \<in> set u. isspace x) \<and> (\<forall>x \<in> set v. isspace x)"
proof -
  obtain v where v: "s = rstrip s @ v" "\<forall>x \<in> set v. isspace x"
    using rstrip_split by blast
  obtain u where u: "rstrip s = u @ lstrip (rstrip s)" "\<forall>x \<in> set u. isspace x"
    using lstrip_split by blast
  from v(1) u(1) have "s = u @ strip s @ v"
    unfolding strip_def by (metis append.assoc)
  with u(2) v(2) show ?thesis by blast
qed

lemma strip_chr_split:
  "\<exists>u v. s = u @ strip_chr c s @ v \<and> (\<forall>x \<in> set u. x = c) \<and> (\<forall>x \<in> set v. x = c)"
proof -
  let ?P = "\<lambda>x. x = c"
  have a: "s = rstrip_chr c s @ rev (takeWhile ?P (rev s))"
    unfolding rstrip_chr_def by (rule rev_dropWhile_split)
  have b: "rstrip_chr c s = takeWhile ?P (rstrip_chr c s) @ strip_chr c s"
    by (simp add: strip_chr_def)
  from a b have "s = takeWhile ?P (rstrip_chr c s) @ strip_chr c s @ rev (takeWhile ?P (rev s))"
    by (metis append.assoc)
  moreover have "\<forall>x \<in> set (takeWhile ?P (rstrip_chr c s)). x = c"
    by (auto dest: set_takeWhileD)
  moreover have "\<forall>x \<in> set (rev (takeWhile ?P (rev s))). x = c"
    by (auto dest: set_takeWhileD)
  ultimately show ?thesis by blast
qed

lemma isspace_not_angle: "isspace x \<Longrightarrow> x \<noteq> 0x3C \<and> x \<noteq> 0x3E"
  by (auto simp: isspace_def)

lemma istartswith_split:
  "istartswith r p \<Longrightarrow> r = take (length p) r @ drop (length p) r \<and>
     list_all2 imatch p (take (length p) r)"
  by (simp add: istartswith_def)

lemma imatch_letters_not_angle:
  "list_all2 imatch p xs \<Longrightarrow> \<forall>c \<in> set p. 0x61 \<le> c \<and> c \<le> 0x7A \<Longrightarrow> 0x3C \<notin> set xs"
proof (induction p xs rule: list_all2_induct)
  case Nil
  then show ?case by simp
next
  case (Cons c p x xs)
  then show ?case
    by (auto simp: imatch_def)
qed

lemma sub_label_split: "\<exists>u. t = u @ sub_label t \<and> 0x3C \<notin> set u"
proof -
  define r where "r = dropWhile isspace t"
  define w where "w = (if istartswith r (ascii ''final'') then Some (drop 5 r)
               else if istartswith r (ascii ''answer'') then Some (drop 6 r)
               else None)"
  have t: "t = takeWhile isspace t @ r"
    by (simp add: r_def)
  have w0: "0x3C \<notin> set (takeWhile isspace t)"
    by (auto dest!: set_takeWhileD isspace_not_angle)
  have trivial: "\<exists>u. t = u @ t \<and> 0x3C \<notin> set u"
    by (rule exI [of _ "[]"]) simp
  have sl: "sub_label t =
            (case w of
               None \<Rightarrow> t
             | Some r1 \<Rightarrow>
                 (case dropWhile isspace r1 of
                    [] \<Rightarrow> t
                  | c # r2 \<Rightarrow> if c = 0x3A then dropWhile isspace r2 else t))"
    by (simp add: sub_label_def r_def w_def Let_def)
  show ?thesis
  proof (cases w)
    case None
    then show ?thesis
      using trivial by (simp add: sl)
  next
    case (Some r1)
    have "\<exists>lab. r = lab @ r1 \<and> 0x3C \<notin> set lab"
    proof (cases "istartswith r (ascii ''final'')")
      case True
      with Some have r1: "r1 = drop 5 r"
        by (simp add: w_def)
      have len: "length (ascii ''final'') = 5"
        by (simp add: ascii_def)
      from istartswith_split [OF True]
      have "r = take 5 r @ drop 5 r" "list_all2 imatch (ascii ''final'') (take 5 r)"
        unfolding len by blast+
      moreover have "\<forall>c \<in> set (ascii ''final''). 0x61 \<le> c \<and> c \<le> 0x7A"
        by (simp add: ascii_def)
      ultimately show ?thesis
        using r1 imatch_letters_not_angle by blast
    next
      case False
      with Some have a: "istartswith r (ascii ''answer'')" and r1: "r1 = drop 6 r"
        by (simp_all add: w_def split: if_splits)
      have len: "length (ascii ''answer'') = 6"
        by (simp add: ascii_def)
      from istartswith_split [OF a]
      have "r = take 6 r @ drop 6 r" "list_all2 imatch (ascii ''answer'') (take 6 r)"
        unfolding len by blast+
      moreover have "\<forall>c \<in> set (ascii ''answer''). 0x61 \<le> c \<and> c \<le> 0x7A"
        by (simp add: ascii_def)
      ultimately show ?thesis
        using r1 imatch_letters_not_angle by blast
    qed
    then obtain lab where lab: "r = lab @ r1" "0x3C \<notin> set lab"
      by blast
    have r1: "r1 = takeWhile isspace r1 @ dropWhile isspace r1"
      by simp
    have w1: "0x3C \<notin> set (takeWhile isspace r1)"
      by (auto dest!: set_takeWhileD isspace_not_angle)
    show ?thesis
    proof (cases "dropWhile isspace r1")
      case Nil
      have "sub_label t = t"
        by (simp only: sl Some Nil option.case list.case)
      then show ?thesis
        using trivial by simp
    next
      case (Cons c r2)
      show ?thesis
      proof (cases "c = 0x3A")
        case False
        with Some Cons show ?thesis
          using trivial by (simp add: sl)
      next
        case True
        with Some Cons have res: "sub_label t = dropWhile isspace r2"
          by (simp add: sl)
        have r2: "r2 = takeWhile isspace r2 @ dropWhile isspace r2"
          by simp
        have w2: "0x3C \<notin> set (takeWhile isspace r2)"
          by (auto dest!: set_takeWhileD isspace_not_angle)
        let ?u = "takeWhile isspace t @ lab @ takeWhile isspace r1 @ [c] @ takeWhile isspace r2"
        have "r1 = takeWhile isspace r1 @ c # r2"
          using r1 Cons by simp
        then have "r1 = takeWhile isspace r1 @ [c] @ takeWhile isspace r2 @ sub_label t"
          using r2 res by simp
        with t lab(1) have "t = ?u @ sub_label t"
          by simp
        moreover have "0x3C \<notin> set ?u"
          using w0 lab(2) w1 w2 True by simp
        ultimately show ?thesis by blast
      qed
    qed
  qed
qed

lemma clean_answer_split:
  "\<exists>u v. c = u @ clean_answer c @ v \<and> 0x3C \<notin> set u \<and> 0x3E \<notin> set v"
proof (cases "c = []")
  case True
  then show ?thesis by (simp add: clean_answer_def)
next
  case False
  define t1 where "t1 = strip c"
  define t2 where "t2 = sub_label t1"
  define t3 where "t3 = (if startswith t2 fence \<and> endswith t2 fence
                         then strip (strip_chr 0x60 t2) else t2)"
  have res: "clean_answer c = strip t3"
    using False by (simp add: clean_answer_def t1_def t2_def t3_def Let_def)
  obtain u1 v1 where s1: "c = u1 @ t1 @ v1" "\<forall>x \<in> set u1. isspace x" "\<forall>x \<in> set v1. isspace x"
    unfolding t1_def using strip_split by blast
  obtain u2 where s2: "t1 = u2 @ t2" "0x3C \<notin> set u2"
    unfolding t2_def using sub_label_split by blast
  have "\<exists>u3 v3. t2 = u3 @ t3 @ v3 \<and> 0x3C \<notin> set u3 \<and> 0x3E \<notin> set v3"
  proof (cases "startswith t2 fence \<and> endswith t2 fence")
    case True
    obtain a b where a: "t2 = a @ strip_chr 0x60 t2 @ b" "\<forall>x \<in> set a. x = 0x60"
      "\<forall>x \<in> set b. x = 0x60"
      using strip_chr_split by blast
    obtain a' b' where b: "strip_chr 0x60 t2 = a' @ t3 @ b'" "\<forall>x \<in> set a'. isspace x"
      "\<forall>x \<in> set b'. isspace x"
      using strip_split [of "strip_chr 0x60 t2"] True by (auto simp: t3_def)
    from a(1) b(1) have "t2 = (a @ a') @ t3 @ (b' @ b)"
      by simp
    moreover have "0x3C \<notin> set (a @ a')"
      using a(2) b(2) by (auto dest: isspace_not_angle)
    moreover have "0x3E \<notin> set (b' @ b)"
      using a(3) b(3) by (auto dest: isspace_not_angle)
    ultimately show ?thesis by blast
  next
    case False
    have "t3 = t2"
      unfolding t3_def by (simp only: False if_False)
    then have "t2 = [] @ t3 @ []"
      by simp
    then show ?thesis by (metis empty_iff empty_set)
  qed
  then obtain u3 v3 where s3: "t2 = u3 @ t3 @ v3" "0x3C \<notin> set u3" "0x3E \<notin> set v3"
    by blast
  obtain u4 v4 where s4: "t3 = u4 @ strip t3 @ v4" "\<forall>x \<in> set u4. isspace x"
    "\<forall>x \<in> set v4. isspace x"
    using strip_split by blast
  have "c = (u1 @ u2 @ u3 @ u4) @ clean_answer c @ (v4 @ v3 @ v1)"
    using s1(1) s2(1) s3(1) s4(1) res by simp
  moreover have "0x3C \<notin> set (u1 @ u2 @ u3 @ u4)"
    using s1(2) s2(2) s3(2) s4(2) by (auto dest: isspace_not_angle)
  moreover have "0x3E \<notin> set (v4 @ v3 @ v1)"
    using s1(3) s3(3) s4(3) by (auto dest: isspace_not_angle)
  ultimately show ?thesis by blast
qed

subsection \<open>Markers inside a trimmed text\<close>

lemma find_tag_prefix:
  assumes "p \<noteq> []" and "\<forall>x \<in> set u. \<not> imatch (hd p) x"
  shows "find_tag p (u @ s) = map_option (\<lambda>(a, b). (u @ a, b)) (find_tag p s)"
  using assms(2)
proof (induction u)
  case Nil
  show ?case
    by (cases "find_tag p s") auto
next
  case (Cons x u)
  from assms(1) obtain q qs where p: "p = q # qs"
    by (cases p) auto
  from Cons.prems p have "\<not> imatch q x"
    by simp
  then have "\<not> istartswith (x # u @ s) p"
    by (auto simp: istartswith_def p)
  moreover from Cons have "find_tag p (u @ s) = map_option (\<lambda>(a, b). (u @ a, b)) (find_tag p s)"
    by simp
  ultimately show ?case
    by (cases "find_tag p s") auto
qed

lemma istartswith_inside:
  assumes "istartswith (s @ v) p" and "p \<noteq> []" and "\<forall>x \<in> set v. \<not> imatch (last p) x"
  shows "length p \<le> length s"
proof (rule ccontr)
  assume "\<not> length p \<le> length s"
  then have l: "length s < length p"
    by simp
  from assms(1) have le: "length p \<le> length (s @ v)"
    and m: "list_all2 imatch p (take (length p) (s @ v))"
    by (simp_all add: istartswith_def)
  let ?k = "length p - length s"
  have tk: "take (length p) (s @ v) = s @ take ?k v"
    using l by simp
  have ne: "take ?k v \<noteq> []"
    using l le by auto
  have len: "length (take (length p) (s @ v)) = length p"
    using le by simp
  from m have "imatch (p ! (length p - 1)) (take (length p) (s @ v) ! (length p - 1))"
    using assms(2) by (auto simp: list_all2_conv_all_nth)
  moreover have "p ! (length p - 1) = last p"
    using assms(2) by (simp add: last_conv_nth)
  moreover have "take (length p) (s @ v) ! (length p - 1) = last (take ?k v)"
    using ne len tk
    by (metis last_appendR last_conv_nth length_0_conv assms(2))
  moreover have "last (take ?k v) \<in> set v"
    using ne by (meson in_set_takeD last_in_set)
  ultimately show False
    using assms(3) by auto
qed

lemma istartswith_append:
  "istartswith (s @ v) p \<Longrightarrow> length p \<le> length s \<Longrightarrow> istartswith s p"
  by (simp add: istartswith_def)

lemma istartswith_extend: "istartswith s p \<Longrightarrow> istartswith (s @ v) p"
  by (simp add: istartswith_def)

lemma find_tag_suffix:
  assumes "p \<noteq> []" and "\<forall>x \<in> set v. \<not> imatch (last p) x"
  shows "find_tag p (s @ v) = Some (a, b) \<Longrightarrow> \<exists>b'. b = b' @ v \<and> find_tag p s = Some (a, b')"
proof (induction s arbitrary: a)
  case Nil
  show ?case
  proof (cases v)
    case Nil
    with \<open>find_tag p ([] @ v) = Some (a, b)\<close> assms(1) show ?thesis by simp
  next
    case (Cons y ys)
    have "\<And>a. find_tag p v = Some (a, b) \<Longrightarrow> False"
      using assms(2)
    proof (induction v)
      case Nil
      with assms(1) show ?case by simp
    next
      case (Cons z zs)
      show ?case
      proof (cases "istartswith (z # zs) p")
        case True
        then have "istartswith ([] @ (z # zs)) p" by simp
        from istartswith_inside [OF this assms(1)] Cons.prems(2) assms(1)
        show ?thesis by simp
      next
        case False
        with Cons.prems(1) obtain a' where "find_tag p zs = Some (a', b)"
          by (auto split: prod.splits)
        with Cons.IH Cons.prems(2) show ?thesis by simp
      qed
    qed
    with Nil.prems show ?thesis by simp
  qed
next
  case (Cons c cs)
  show ?case
  proof (cases "istartswith ((c # cs) @ v) p")
    case True
    then have le: "length p \<le> length (c # cs)"
      using istartswith_inside assms by blast
    with True have "istartswith (c # cs) p"
      using istartswith_append by blast
    moreover from True Cons.prems have "a = []" "b = drop (length p) ((c # cs) @ v)"
      by simp_all
    moreover have "drop (length p) ((c # cs) @ v) = drop (length p) (c # cs) @ v"
    proof -
      have "drop (length p) ((c # cs) @ v) =
            drop (length p) (c # cs) @ drop (length p - length (c # cs)) v"
        by (rule drop_append)
      with le show ?thesis by simp
    qed
    ultimately show ?thesis by simp
  next
    case False
    then have nf: "\<not> istartswith (c # cs) p"
      using istartswith_extend [of "c # cs" p v] by blast
    from False Cons.prems obtain a' where a': "find_tag p (cs @ v) = Some (a', b)" "a = c # a'"
      by (auto split: prod.splits)
    from Cons.IH [OF a'(1)] obtain b' where "b = b' @ v" "find_tag p cs = Some (a', b')"
      by blast
    with nf a'(2) show ?thesis by simp
  qed
qed

lemma think_search_inside:
  assumes "think_search (u @ s @ v) = Some (pre, body, post)"
    and "0x3C \<notin> set u" and "0x3E \<notin> set v"
  shows "\<exists>pre' post'. think_search s = Some (pre', body, post')"
proof -
  have op: "ascii ''<think>'' \<noteq> []" "hd (ascii ''<think>'') = 0x3C"
    "last (ascii ''<think>'') = 0x3E"
    and cl: "ascii ''</think>'' \<noteq> []" "last (ascii ''</think>'') = 0x3E"
    by (simp_all add: ascii_def)
  have lt: "imatch 0x3C x \<longleftrightarrow> x = 0x3C" and gt: "imatch 0x3E x \<longleftrightarrow> x = 0x3E" for x
    by (auto simp: imatch_def)
  from assms(1) obtain r where
    o: "find_tag (ascii ''<think>'') (u @ s @ v) = Some (pre, r)" and
    c: "find_tag (ascii ''</think>'') r = Some (body, post)"
    by (auto simp: think_search_def split: option.splits)
  have nu: "\<forall>x \<in> set u. \<not> imatch (hd (ascii ''<think>'')) x"
    using assms(2) by (auto simp: op(2) lt)
  have "find_tag (ascii ''<think>'') (u @ s @ v) =
        map_option (\<lambda>(a, b). (u @ a, b)) (find_tag (ascii ''<think>'') (s @ v))"
    by (rule find_tag_prefix [OF op(1) nu])
  with o obtain pre' where o': "find_tag (ascii ''<think>'') (s @ v) = Some (pre', r)"
    by (auto split: prod.splits)
  have nv: "\<forall>x \<in> set v. \<not> imatch (last (ascii ''<think>'')) x"
    "\<forall>x \<in> set v. \<not> imatch (last (ascii ''</think>'')) x"
    using assms(3) by (auto simp: op(3) cl(2) gt)
  from find_tag_suffix [OF op(1) nv(1) o'] obtain r' where
    r': "r = r' @ v" "find_tag (ascii ''<think>'') s = Some (pre', r')"
    by blast
  from c r'(1) have "find_tag (ascii ''</think>'') (r' @ v) = Some (body, post)"
    by simp
  from find_tag_suffix [OF cl(1) nv(2) this] obtain post' where
    "find_tag (ascii ''</think>'') r' = Some (body, post')"
    by blast
  with r'(2) show ?thesis
    by (simp add: think_search_def)
qed

lemma clean_answer_keeps_markers:
  assumes "think_search c = Some (pre, body, post)"
  shows "\<exists>pre' post'. think_search (clean_answer c) = Some (pre', body, post')"
proof -
  obtain u v where "c = u @ clean_answer c @ v" "0x3C \<notin> set u" "0x3E \<notin> set v"
    using clean_answer_split by blast
  with assms think_search_inside [of u "clean_answer c" v pre body post] show ?thesis
    by simp
qed

subsection \<open>Precedence of the dedicated reasoning field\<close>

lemma xy_search:
  "think_search (ascii ''<think>x</think>y'') = Some ([], ascii ''x'', ascii ''y'')"
  by (simp add: think_search_def ascii_def istartswith_def imatch_def)

lemma y_search: "think_search (ascii ''y'') = None"
  by (simp add: think_search_def ascii_def istartswith_def imatch_def)

lemma xy_sub: "think_sub (ascii ''<think>x</think>y'') = ascii ''y''"
  by (subst think_sub.simps, simp add: xy_search, subst think_sub.simps, simp add: y_search)

lemma xy_clean:
  "clean_answer (ascii ''<think>x</think>y'') = ascii ''<think>x</think>y''"
  "clean_answer (ascii ''y'') = ascii ''y''"
  by (simp_all add: clean_answer_def sub_label_def istartswith_def imatch_def fence_def
      endswith_def eval_text)

lemma xy_split:
  "split_thinking_and_answer_from_content (ascii ''<think>x</think>y'') = (ascii ''x'', ascii ''y'')"
proof -
  have e: "strip (ascii ''x'') = ascii ''x''" "strip (ascii ''y'') = ascii ''y''"
    "ascii ''<think>x</think>y'' \<noteq> []"
    by (simp_all add: eval_text)
  show ?thesis
    by (simp add: split_thinking_and_answer_from_content_def xy_search y_search e xy_clean)
qed

text \<open>
  Claim C4 as stated fails. The message below has a non-empty \<open>reasoning\<close> field (one
  space), a non-empty \<open>thoughts\<close> field and inline markers in its content. The
  \<open>reasoning\<close> field is chosen because it is not empty and then rejected because it is
  blank; \<open>thoughts\<close> is never read, and the inline markers are parsed and removed: the
  thinking is \<open>x\<close> and the answer is \<open>y\<close>, not the de-scaffolded content.
\<close>

theorem splitter_precedence_counterexample:
  "split_thinking_and_answer no_lib
     (JObj [(ascii ''reasoning'', JStr (ascii '' '')),
            (ascii ''thoughts'', JStr (ascii ''T'')),
            (ascii ''content'', JStr (ascii ''<think>x</think>y''))]) =
   (ascii ''x'', ascii ''y'') \<and>
   clean_answer (ascii ''<think>x</think>y'') = ascii ''<think>x</think>y''"
proof -
  have e: "strip (ascii '' '') = []"
    by (simp add: eval_text)
  have k: "ascii ''reasoning'' \<noteq> ascii ''thoughts''" "ascii ''reasoning'' \<noteq> ascii ''content''"
    "ascii ''thoughts'' \<noteq> ascii ''content''" "ascii '' '' \<noteq> []"
    "ascii ''<think>x</think>y'' \<noteq> []"
    by (simp_all add: ascii_def)
  show ?thesis
    using k
    by (simp add: split_thinking_and_answer_def dict_get_def dict_get_default_def py_or_def e
        xy_split xy_clean)
qed

lemma ab_search:
  "think_search (ascii ''<think>a</think>b'') = Some ([], ascii ''a'', ascii ''b'')"
  by (simp add: think_search_def ascii_def istartswith_def imatch_def)

lemma ab_clean:
  "clean_answer (ascii ''<think>a</think>b'') = ascii ''<think>a</think>b''"
  by (simp add: clean_answer_def sub_label_def istartswith_def imatch_def fence_def
      endswith_def eval_text)

text \<open>
  Claim C4, amended. Take a message object whose dedicated reasoning value (the
  \<open>reasoning\<close> field when it is true in Python's sense, otherwise the \<open>thoughts\<close> field)
  is a string that is not blank, and whose content is a string with an inline marker
  block. The splitter returns the trimmed dedicated value as thinking and the
  de-scaffolded content as answer; the markers are not parsed, and the marker block,
  with the same enclosed text, is still in the answer.
\<close>

theorem splitter_precedence:
  assumes "py_or (dict_get d (ascii ''reasoning'')) (dict_get d (ascii ''thoughts'')) = JStr r"
    and "strip r \<noteq> []"
    and "dict_get d (ascii ''content'') = JStr c"
    and "think_search c = Some (pre, body, post)"
  shows "split_thinking_and_answer L (JObj d) = (strip r, clean_answer c) \<and>
         (\<exists>pre' post'. think_search (clean_answer c) = Some (pre', body, post'))"
proof -
  from assms(2) have "r \<noteq> []"
    by (auto simp: strip_Nil)
  then have t: "truthy (JStr r)"
    by simp
  have "clean_answer_any L (py_or (JStr c) (JStr [])) = clean_answer c"
    by (cases "c = []") (simp_all add: clean_answer_any_def py_or_def clean_answer_def)
  with assms(1,2,3) t have "split_thinking_and_answer L (JObj d) = (strip r, clean_answer c)"
    by (simp add: split_thinking_and_answer_def py_or_def)
  with clean_answer_keeps_markers [OF assms(4)] show ?thesis
    by simp
qed

lemma Answer_xy_search:
  "think_search (ascii ''Answer: <think>x</think>y'') =
   Some (ascii ''Answer: '', ascii ''x'', ascii ''y'')"
  by (simp add: think_search_def ascii_def istartswith_def imatch_def)

lemma Answer_xy_clean:
  "clean_answer (ascii ''Answer: <think>x</think>y'') = ascii ''<think>x</think>y''"
  by (simp add: clean_answer_def sub_label_def istartswith_def imatch_def fence_def
      endswith_def eval_text)

theorem splitter_precedence_witness:
  "split_thinking_and_answer no_lib
     (JObj [(ascii ''thoughts'', JStr (ascii '' why '')),
            (ascii ''content'', JStr (ascii ''Answer: <think>x</think>y''))]) =
   (ascii ''why'', ascii ''<think>x</think>y'') \<and>
   split_thinking_and_answer no_lib
     (JObj [(ascii ''reasoning'', JFloat (ascii ''1e-400'')),
            (ascii ''thoughts'', JStr (ascii ''T'')),
            (ascii ''content'', JStr (ascii ''<think>a</think>b''))]) =
   (ascii ''T'', ascii ''<think>a</think>b'')"
proof -
  let ?d = "[(ascii ''thoughts'', JStr (ascii '' why '')),
             (ascii ''content'', JStr (ascii ''Answer: <think>x</think>y''))]"
  let ?e = "[(ascii ''reasoning'', JFloat (ascii ''1e-400'')),
             (ascii ''thoughts'', JStr (ascii ''T'')),
             (ascii ''content'', JStr (ascii ''<think>a</think>b''))]"
  have k: "ascii ''reasoning'' \<noteq> ascii ''thoughts''" "ascii ''reasoning'' \<noteq> ascii ''content''"
    "ascii ''thoughts'' \<noteq> ascii ''content''" "ascii ''content'' \<noteq> ascii ''thoughts''"
    "ascii ''content'' \<noteq> ascii ''reasoning''" "ascii ''thoughts'' \<noteq> ascii ''reasoning''"
    by (simp_all add: ascii_def)
  have a: "py_or (dict_get ?d (ascii ''reasoning'')) (dict_get ?d (ascii ''thoughts'')) =
           JStr (ascii '' why '')"
    using k by (simp add: dict_get_def dict_get_default_def py_or_def)
  have b: "strip (ascii '' why '') \<noteq> []" and b': "strip (ascii '' why '') = ascii ''why''"
    by (simp_all add: eval_text)
  have c: "dict_get ?d (ascii ''content'') = JStr (ascii ''Answer: <think>x</think>y'')"
    using k by (simp add: dict_get_def dict_get_default_def)
  from splitter_precedence [OF a b c Answer_xy_search, of no_lib]
  have 1: "split_thinking_and_answer no_lib (JObj ?d) = (ascii ''why'', ascii ''<think>x</think>y'')"
    by (simp only: b' Answer_xy_clean)
  have a2: "py_or (dict_get ?e (ascii ''reasoning'')) (dict_get ?e (ascii ''thoughts'')) =
            JStr (ascii ''T'')"
    using k tiny_float_falsy by (simp add: dict_get_def dict_get_default_def py_or_def)
  have b2: "strip (ascii ''T'') \<noteq> []" and b2': "strip (ascii ''T'') = ascii ''T''"
    by (simp_all add: eval_text)
  have c2: "dict_get ?e (ascii ''content'') = JStr (ascii ''<think>a</think>b'')"
    using k by (simp add: dict_get_def dict_get_default_def)
  from splitter_precedence [OF a2 b2 c2 ab_search, of no_lib]
  have 2: "split_thinking_and_answer no_lib (JObj ?e) = (ascii ''T'', ascii ''<think>a</think>b'')"
    by (simp only: b2' ab_clean)
  from 1 2 show ?thesis
    by (rule conjI)
qed

section \<open>The JSON extractor: properties\<close>

subsection \<open>A space at the end of a text\<close>

lemma isspace_plain:
  assumes "isspace c"
  shows "c \<noteq> 0x22" "c \<noteq> 0x5C" "c \<noteq> 0x75" "\<not> isdigit c" "hexval c = None"
    "simple_escape c = None" "c \<noteq> 0x2E" "c \<noteq> 0x65" "c \<noteq> 0x45" "c \<noteq> 0x2B" "c \<noteq> 0x2D"
    "c \<noteq> 0x7B" "c \<noteq> 0x7D" "c \<noteq> 0x5B" "c \<noteq> 0x5D" "c \<noteq> 0x3A" "c \<noteq> 0x2C" "c \<noteq> 0x60"
  using assms by (auto simp: isspace_def isdigit_def hexval_def simple_escape_def)

lemma takeWhile_snoc: "\<not> P c \<Longrightarrow> takeWhile P (s @ [c]) = takeWhile P s"
  by (induction s) auto

lemma hex4s_snoc: "isspace c \<Longrightarrow> hex4s (t @ [c]) = hex4s t"
proof -
  assume c: "isspace c"
  consider "4 \<le> length t" | "length t = 3" | "length t < 3"
    by linarith
  then show ?thesis
  proof cases
    case 1
    then show ?thesis
      by (auto simp: hex4s_def nth_append)
  next
    case 2
    then show ?thesis
      using isspace_plain(5) [OF c]
      by (simp add: hex4s_def nth_append hex4_def split: option.splits)
  next
    case 3
    then show ?thesis
      by (simp add: hex4s_def)
  qed
qed

lemma hex4s_length: "hex4s t = Some u \<Longrightarrow> 4 \<le> length t"
  by (simp add: hex4s_def split: if_splits)

lemma low_surrogate_escape_snoc:
  "isspace c \<Longrightarrow> low_surrogate_escape (q @ [c]) = low_surrogate_escape q"
proof -
  assume c: "isspace c"
  consider "2 \<le> length q" | "length q = 1" | "length q = 0"
    by linarith
  then show ?thesis
  proof cases
    case 1
    then show ?thesis
      using hex4s_snoc [OF c, of "drop 2 q"]
      by (auto simp: low_surrogate_escape_def nth_append)
  next
    case 2
    then show ?thesis
      using isspace_plain(3) [OF c]
      by (simp add: low_surrogate_escape_def nth_append)
  next
    case 3
    then show ?thesis
      by (simp add: low_surrogate_escape_def)
  qed
qed

lemma low_surrogate_escape_length: "low_surrogate_escape q = Some lo \<Longrightarrow> 6 \<le> length q"
  by (auto simp: low_surrogate_escape_def split: if_splits option.splits dest: hex4s_length)

lemma lex_string_snoc:
  "isspace c \<Longrightarrow>
   lex_string acc (ds @ [c]) = map_option (\<lambda>(v, r). (v, r @ [c])) (lex_string acc ds)"
proof (induction acc ds rule: lex_string.induct)
  case (1 acc)
  then show ?case
    using isspace_plain(1,2) [OF 1] by simp
next
  case (2 acc x xs)
  note c = isspace_plain [OF "2.prems"]
  show ?case
  proof (cases "x = 0x22")
    case True
    then show ?thesis by simp
  next
    case nq: False
    show ?thesis
    proof (cases "x = 0x5C")
      case False
      with nq "2.IH"(4) "2.prems" show ?thesis
        by simp
    next
      case bs: True
      show ?thesis
      proof (cases xs)
        case Nil
        with nq bs c show ?thesis by simp
      next
        case (Cons e t)
        show ?thesis
        proof (cases "e = 0x75")
          case False
          with nq bs Cons "2.IH"(3) "2.prems" show ?thesis
            by (simp split: option.splits)
        next
          case u: True
          show ?thesis
          proof (cases "hex4s t")
            case None
            with nq bs Cons u show ?thesis
              by (simp add: hex4s_snoc [OF "2.prems"])
          next
            case (Some h)
            then have l4: "4 \<le> length t"
              by (rule hex4s_length)
            let ?ls = "if 0xD800 \<le> h \<and> h \<le> 0xDBFF then low_surrogate_escape (drop 4 t) else None"
            have ls: "(if 0xD800 \<le> h \<and> h \<le> 0xDBFF
                       then low_surrogate_escape (drop 4 (t @ [c])) else None) = ?ls"
              using l4 low_surrogate_escape_snoc [OF "2.prems", of "drop 4 t"] by simp
            show ?thesis
            proof (cases ?ls)
              case None
              have "lex_string (acc @ [h]) (drop 4 t @ [c]) =
                    map_option (\<lambda>(v, r). (v, r @ [c])) (lex_string (acc @ [h]) (drop 4 t))"
                using "2.IH"(1) [OF nq bs Cons u Some None "2.prems"] .
              with nq bs Cons u Some None ls l4 show ?thesis
                by (simp add: hex4s_snoc [OF "2.prems"])
            next
              case lo: (Some lo)
              then have "low_surrogate_escape (drop 4 t) = Some lo"
                by (simp split: if_splits)
              then have l10: "10 \<le> length t"
                using low_surrogate_escape_length [of "drop 4 t" lo] by simp
              have "lex_string (acc @ [0x10000 + (h - 0xD800) * 0x400 + (lo - 0xDC00)])
                      (drop 10 t @ [c]) =
                    map_option (\<lambda>(v, r). (v, r @ [c]))
                      (lex_string (acc @ [0x10000 + (h - 0xD800) * 0x400 + (lo - 0xDC00)])
                         (drop 10 t))"
                using "2.IH"(2) [OF nq bs Cons u Some lo "2.prems"] .
              with nq bs Cons u Some lo ls l10 show ?thesis
                by (simp add: hex4s_snoc [OF "2.prems"])
            qed
          qed
        qed
      qed
    qed
  qed
qed

lemma frac_part_snoc: "isspace c \<Longrightarrow> frac_part (s @ [c]) = frac_part s"
proof -
  assume c: "isspace c"
  show ?thesis
  proof (cases s)
    case Nil
    then show ?thesis by (simp add: frac_part_def)
  next
    case s1: (Cons p t)
    show ?thesis
    proof (cases t)
      case Nil
      with s1 isspace_plain(4) [OF c] show ?thesis
        by (simp add: frac_part_def)
    next
      case (Cons d r)
      with s1 isspace_plain(4) [OF c] show ?thesis
        by (simp add: frac_part_def takeWhile_snoc)
    qed
  qed
qed

lemma frac_part_length: "length (frac_part s) \<le> length s"
proof (cases s)
  case Nil
  then show ?thesis by (simp add: frac_part_def)
next
  case s1: (Cons p t)
  show ?thesis
  proof (cases t)
    case Nil
    with s1 show ?thesis by (simp add: frac_part_def)
  next
    case (Cons d r)
    with s1 show ?thesis
      by (simp add: frac_part_def length_takeWhile_le)
  qed
qed

lemma exp_part_snoc: "isspace c \<Longrightarrow> exp_part (s @ [c]) = exp_part s"
proof -
  assume c: "isspace c"
  note p = isspace_plain [OF c]
  show ?thesis
  proof (cases s)
    case Nil
    with p show ?thesis by (simp add: exp_part_def)
  next
    case s1: (Cons e r)
    show ?thesis
    proof (cases r)
      case Nil
      with s1 p show ?thesis
        by (simp add: exp_part_def)
    next
      case (Cons x t)
      with s1 p show ?thesis
        by (simp add: exp_part_def takeWhile_snoc Let_def)
    qed
  qed
qed

lemma exp_part_length: "length (exp_part s) \<le> length s"
proof (cases s)
  case Nil
  then show ?thesis by (simp add: exp_part_def)
next
  case s1: (Cons e r)
  show ?thesis
  proof (cases r)
    case Nil
    with s1 show ?thesis by (simp add: exp_part_def)
  next
    case (Cons x t)
    have "length (takeWhile isdigit t) \<le> length t" "length (takeWhile isdigit (x # t)) \<le> Suc (length t)"
      using length_takeWhile_le [of isdigit t] length_takeWhile_le [of isdigit "x # t"] by simp_all
    with s1 Cons show ?thesis
      by (auto simp: exp_part_def Let_def)
  qed
qed

lemma lex_number_snoc:
  assumes c: "isspace c"
  shows "lex_number (s @ [c]) = map_option (\<lambda>(v, r). (v, r @ [c])) (lex_number s)"
proof -
  note p = isspace_plain [OF c]
  define body where "body = (\<lambda>neg s1.
     case s1 of
       [] \<Rightarrow> None
     | d # r \<Rightarrow>
         if \<not> isdigit d then None
         else
           (let ip = (if d = 0x30 then [d] else d # takeWhile isdigit r);
                s2 = drop (length ip) s1;
                fp = frac_part s2;
                s3 = drop (length fp) s2;
                ep = exp_part s3;
                s4 = drop (length ep) s3;
                sg = (if neg then [0x2D] else [])
            in Some (if fp = [] \<and> ep = []
                     then JInt ((if neg then - 1 else 1) * int (dec ip))
                     else JFloat (sg @ ip @ fp @ ep),
                     s4)))"
  have eq: "lex_number t =
            body (t \<noteq> [] \<and> hd t = 0x2D) (if t \<noteq> [] \<and> hd t = 0x2D then tl t else t)" for t
    unfolding lex_number_def body_def Let_def ..
  have body_snoc: "body n (s1 @ [c]) = map_option (\<lambda>(v, r). (v, r @ [c])) (body n s1)" for n s1
  proof (cases s1)
    case Nil
    then show ?thesis
      using p(4) by (simp add: body_def)
  next
    case (Cons d r)
    show ?thesis
    proof (cases "isdigit d")
      case False
      with Cons show ?thesis
        by (simp add: body_def)
    next
      case True
      define ip where "ip = (if d = 0x30 then [d] else d # takeWhile isdigit r)"
      define s2 where "s2 = drop (length ip) s1"
      define fp where "fp = frac_part s2"
      define s3 where "s3 = drop (length fp) s2"
      define ep where "ep = exp_part s3"
      have ip': "(if d = 0x30 then [d] else d # takeWhile isdigit (r @ [c])) = ip"
        using p(4) by (simp add: ip_def takeWhile_snoc)
      have lip: "length ip \<le> length s1"
        using Cons length_takeWhile_le [of isdigit r] by (simp add: ip_def)
      then have s2': "drop (length ip) (s1 @ [c]) = s2 @ [c]"
        by (simp add: s2_def)
      have fp': "frac_part (s2 @ [c]) = fp"
        by (simp add: fp_def frac_part_snoc [OF c])
      have "length fp \<le> length s2"
        unfolding fp_def by (rule frac_part_length)
      then have s3': "drop (length fp) (s2 @ [c]) = s3 @ [c]"
        by (simp add: s3_def)
      have ep': "exp_part (s3 @ [c]) = ep"
        by (simp add: ep_def exp_part_snoc [OF c])
      have "length ep \<le> length s3"
        unfolding ep_def by (rule exp_part_length)
      then have s4': "drop (length ep) (s3 @ [c]) = drop (length ep) s3 @ [c]"
        by simp
      have a: "body n s1 =
               Some (if fp = [] \<and> ep = []
                     then JInt ((if n then - 1 else 1) * int (dec ip))
                     else JFloat ((if n then [0x2D] else []) @ ip @ fp @ ep),
                     drop (length ep) s3)"
        unfolding body_def Cons list.case Let_def
        unfolding Cons [symmetric] ip_def [symmetric]
        unfolding s2_def [symmetric] fp_def [symmetric]
        unfolding s3_def [symmetric] ep_def [symmetric]
        using True by simp
      have s1c: "s1 @ [c] = d # (r @ [c])"
        using Cons by simp
      have b: "body n (s1 @ [c]) =
               Some (if fp = [] \<and> ep = []
                     then JInt ((if n then - 1 else 1) * int (dec ip))
                     else JFloat ((if n then [0x2D] else []) @ ip @ fp @ ep),
                     drop (length ep) s3 @ [c])"
        unfolding body_def s1c list.case Let_def
        unfolding s1c [symmetric] ip'
        unfolding s2' fp' s3' ep' s4'
        using True by simp
      show ?thesis
        by (simp add: a b)
    qed
  qed
  have neg': "(s @ [c] \<noteq> [] \<and> hd (s @ [c]) = 0x2D) = (s \<noteq> [] \<and> hd s = 0x2D)"
    using p(11) by (cases s) simp_all
  have s1': "(if s \<noteq> [] \<and> hd s = 0x2D then tl (s @ [c]) else s @ [c]) =
             (if s \<noteq> [] \<and> hd s = 0x2D then tl s else s) @ [c]"
    by (cases s) auto
  show ?thesis
    unfolding eq [of "s @ [c]"] eq [of s] neg' s1' by (rule body_snoc)
qed

lemma startswith_length: "startswith s p \<Longrightarrow> length p \<le> length s"
proof -
  assume "startswith s p"
  then have "length (take (length p) s) = length p"
    by (simp add: startswith_def)
  then show ?thesis by simp
qed

lemma drop_snoc_startswith:
  "startswith s p \<Longrightarrow> drop (length p) (s @ [c]) = drop (length p) s @ [c]"
  using startswith_length [of s p] by simp

lemma startswith_snoc:
  assumes "c \<notin> set p" and "p \<noteq> []"
  shows "startswith (s @ [c]) p = startswith s p"
proof (cases "length p \<le> length s")
  case True
  then show ?thesis by (simp add: startswith_def)
next
  case False
  then have "take (length p) (s @ [c]) = s @ [c]" "take (length p) s = s"
    by simp_all
  moreover have "s @ [c] \<noteq> p"
    using assms(1) by auto
  moreover have "s \<noteq> p"
    using False by auto
  ultimately show ?thesis
    by (simp add: startswith_def)
qed

lemma lex_scalar_snoc:
  assumes c: "isspace c"
  shows "lex_scalar (s @ [c]) = map_option (\<lambda>(v, r). (v, r @ [c])) (lex_scalar s)"
proof -
  have lits: "c \<notin> set (ascii ''null'')" "c \<notin> set (ascii ''true'')" "c \<notin> set (ascii ''false'')"
    "c \<notin> set (ascii ''NaN'')" "c \<notin> set (ascii ''Infinity'')" "c \<notin> set (ascii ''-Infinity'')"
    using c by (auto simp: ascii_def isspace_def)
  have ne: "ascii ''null'' \<noteq> []" "ascii ''true'' \<noteq> []" "ascii ''false'' \<noteq> []"
    "ascii ''NaN'' \<noteq> []" "ascii ''Infinity'' \<noteq> []" "ascii ''-Infinity'' \<noteq> []"
    by (simp_all add: ascii_def)
  have len: "length (ascii ''null'') = 4" "length (ascii ''true'') = 4"
    "length (ascii ''false'') = 5" "length (ascii ''NaN'') = 3"
    "length (ascii ''Infinity'') = 8" "length (ascii ''-Infinity'') = 9"
    by (simp_all add: ascii_def)
  have sw: "startswith (s @ [c]) (ascii ''null'') = startswith s (ascii ''null'')"
    "startswith (s @ [c]) (ascii ''true'') = startswith s (ascii ''true'')"
    "startswith (s @ [c]) (ascii ''false'') = startswith s (ascii ''false'')"
    "startswith (s @ [c]) (ascii ''NaN'') = startswith s (ascii ''NaN'')"
    "startswith (s @ [c]) (ascii ''Infinity'') = startswith s (ascii ''Infinity'')"
    "startswith (s @ [c]) (ascii ''-Infinity'') = startswith s (ascii ''-Infinity'')"
    using lits ne by (simp_all add: startswith_snoc)
  have d1: "startswith s (ascii ''null'') \<Longrightarrow> drop 4 (s @ [c]) = drop 4 s @ [c]"
    using drop_snoc_startswith [of s "ascii ''null''" c] by (simp only: len)
  have d2: "startswith s (ascii ''true'') \<Longrightarrow> drop 4 (s @ [c]) = drop 4 s @ [c]"
    using drop_snoc_startswith [of s "ascii ''true''" c] by (simp only: len)
  have d3: "startswith s (ascii ''false'') \<Longrightarrow> drop 5 (s @ [c]) = drop 5 s @ [c]"
    using drop_snoc_startswith [of s "ascii ''false''" c] by (simp only: len)
  have d4: "startswith s (ascii ''NaN'') \<Longrightarrow> drop 3 (s @ [c]) = drop 3 s @ [c]"
    using drop_snoc_startswith [of s "ascii ''NaN''" c] by (simp only: len)
  have d5: "startswith s (ascii ''Infinity'') \<Longrightarrow> drop 8 (s @ [c]) = drop 8 s @ [c]"
    using drop_snoc_startswith [of s "ascii ''Infinity''" c] by (simp only: len)
  have d6: "startswith s (ascii ''-Infinity'') \<Longrightarrow> drop 9 (s @ [c]) = drop 9 s @ [c]"
    using drop_snoc_startswith [of s "ascii ''-Infinity''" c] by (simp only: len)
  show ?thesis
  proof (cases "startswith s (ascii ''null'')")
    case True
    then show ?thesis
      unfolding lex_scalar_def sw by (simp add: d1 del: drop_append)
  next
    case n1: False
    show ?thesis
    proof (cases "startswith s (ascii ''true'')")
      case True
      with n1 show ?thesis
        unfolding lex_scalar_def sw by (simp add: d2 del: drop_append)
    next
      case n2: False
      show ?thesis
      proof (cases "startswith s (ascii ''false'')")
        case True
        with n1 n2 show ?thesis
          unfolding lex_scalar_def sw by (simp add: d3 del: drop_append)
      next
        case n3: False
        show ?thesis
        proof (cases "startswith s (ascii ''NaN'')")
          case True
          with n1 n2 n3 show ?thesis
            unfolding lex_scalar_def sw by (simp add: d4 del: drop_append)
        next
          case n4: False
          show ?thesis
          proof (cases "startswith s (ascii ''Infinity'')")
            case True
            with n1 n2 n3 n4 show ?thesis
              unfolding lex_scalar_def sw by (simp add: d5 del: drop_append)
          next
            case n5: False
            show ?thesis
            proof (cases "startswith s (ascii ''-Infinity'')")
              case True
              with n1 n2 n3 n4 n5 show ?thesis
                unfolding lex_scalar_def sw by (simp add: d6 del: drop_append)
            next
              case False
              with n1 n2 n3 n4 n5 show ?thesis
                unfolding lex_scalar_def sw by (simp add: lex_number_snoc [OF c])
            qed
          qed
        qed
      qed
    qed
  qed
qed

lemma lex_scalar_space: "isspace c \<Longrightarrow> lex_scalar (c # s) = None"
proof -
  assume c: "isspace c"
  note p = isspace_plain [OF c]
  have "\<not> startswith (c # s) (ascii ''null'')" "\<not> startswith (c # s) (ascii ''true'')"
    "\<not> startswith (c # s) (ascii ''false'')" "\<not> startswith (c # s) (ascii ''NaN'')"
    "\<not> startswith (c # s) (ascii ''Infinity'')" "\<not> startswith (c # s) (ascii ''-Infinity'')"
    using c by (auto simp: startswith_def ascii_def isspace_def)
  moreover have "lex_number (c # s) = None"
    using p(4,11) by (simp add: lex_number_def)
  ultimately show ?thesis
    by (simp add: lex_scalar_def)
qed

lemma lex_Cons_space: "isspace c \<Longrightarrow> lex (c # s) = (if jws c then lex s else None)"
proof -
  assume c: "isspace c"
  note p = isspace_plain [OF c]
  show ?thesis
    by (simp add: p lex_scalar_space [OF c])
qed

lemma lex_snoc: "isspace c \<Longrightarrow> lex (s @ [c]) = (if jws c then lex s else None)"
proof (induction s rule: lex.induct)
  case 1
  then show ?case
    using lex_Cons_space [of c "[]"] by simp
next
  case (2 x xs)
  note c = "2.prems"
  show ?case
  proof (cases "jws x \<or> x = 0x7B \<or> x = 0x7D \<or> x = 0x5B \<or> x = 0x5D \<or> x = 0x3A \<or> x = 0x2C")
    case True
    then have P: "lex (xs @ [c]) = (if jws c then lex xs else None)"
      using "2.IH"(1-7) c by blast
    show ?thesis
    proof (cases "jws x")
      case True
      then show ?thesis by (simp add: P)
    next
      case False
      with True have "x = 0x7B \<or> x = 0x7D \<or> x = 0x5B \<or> x = 0x5D \<or> x = 0x3A \<or> x = 0x2C"
        by simp
      with False show ?thesis
        by (elim disjE) (simp_all add: P)
    qed
  next
    case plain: False
    show ?thesis
    proof (cases "x = 0x22")
      case True
      show ?thesis
      proof (cases "lex_string [] xs")
        case None
        with plain True show ?thesis
          by (simp add: lex_string_snoc [OF c])
      next
        case (Some a)
        obtain str r where a: "a = (str, r)"
          by (cases a)
        from plain True Some a c have "lex (r @ [c]) = (if jws c then lex r else None)"
          using "2.IH"(8) by simp
        with plain True Some a show ?thesis
          by (simp add: lex_string_snoc [OF c])
      qed
    next
      case False
      show ?thesis
      proof (cases "lex_scalar (x # xs)")
        case None
        then have "lex_scalar (x # xs @ [c]) = None"
          using lex_scalar_snoc [OF c, of "x # xs"] by simp
        with plain False None show ?thesis
          by simp
      next
        case (Some a)
        obtain v r where a: "a = (v, r)"
          by (cases a)
        from Some a have sc: "lex_scalar (x # xs @ [c]) = Some (v, r @ [c])"
          using lex_scalar_snoc [OF c, of "x # xs"] by simp
        from plain False Some a c have "lex (r @ [c]) = (if jws c then lex r else None)"
          using "2.IH"(9) by simp
        with plain False Some a sc show ?thesis
          by simp
      qed
    qed
  qed
qed

lemma lex_drop_spaces:
  "\<forall>x \<in> set v. isspace x \<Longrightarrow> lex (s @ v) = Some ts \<Longrightarrow> lex s = Some ts"
proof (induction v rule: rev_induct)
  case Nil
  then show ?case by simp
next
  case (snoc c v)
  from snoc.prems have c: "isspace c" and l: "lex ((s @ v) @ [c]) = Some ts"
    by simp_all
  from l lex_snoc [OF c, of "s @ v"] have "lex (s @ v) = Some ts"
    by (simp split: if_splits)
  with snoc show ?case by simp
qed

lemma lex_lstrip: "lex s = Some ts \<Longrightarrow> lex (lstrip s) = Some ts"
proof (induction s)
  case Nil
  then show ?case by (simp add: lstrip_def)
next
  case (Cons c s)
  show ?case
  proof (cases "isspace c")
    case True
    with Cons.prems lex_Cons_space [OF True, of s] have "lex s = Some ts"
      by (simp split: if_splits)
    with Cons.IH True show ?thesis
      by (simp add: lstrip_def)
  next
    case False
    with Cons.prems show ?thesis
      by (simp add: lstrip_def)
  qed
qed

lemma rstrip_append: "\<exists>v. s = rstrip s @ v \<and> (\<forall>x \<in> set v. isspace x)"
proof -
  have "rev (dropWhile isspace (rev s)) @ rev (takeWhile isspace (rev s)) =
        rev (takeWhile isspace (rev s) @ dropWhile isspace (rev s))"
    by (simp only: rev_append)
  also have "\<dots> = s"
    by (simp only: takeWhile_dropWhile_id rev_rev_ident)
  finally have "s = rstrip s @ rev (takeWhile isspace (rev s))"
    by (simp add: rstrip_def)
  moreover have "\<forall>x \<in> set (rev (takeWhile isspace (rev s))). isspace x"
    by (auto dest: set_takeWhileD)
  ultimately show ?thesis by blast
qed

lemma lex_strip: "lex s = Some ts \<Longrightarrow> lex (strip s) = Some ts"
proof -
  assume l: "lex s = Some ts"
  obtain v where v: "s = rstrip s @ v" "\<forall>x \<in> set v. isspace x"
    using rstrip_append by blast
  from l v(1) have "lex (rstrip s @ v) = Some ts"
    by simp
  from lex_drop_spaces [OF v(2) this] have "lex (rstrip s) = Some ts" .
  then show ?thesis
    unfolding strip_def by (rule lex_lstrip)
qed

lemma json_loads_strip: "json_loads s = Some v \<Longrightarrow> json_loads (strip s) = Some v"
proof -
  assume a: "json_loads s = Some v"
  then obtain ts where ts: "lex s = Some ts" "parse PVal [] ts = Some v"
    by (cases "lex s") (simp_all add: json_loads_def)
  from lex_strip [OF ts(1)] ts(2) show ?thesis
    by (simp add: json_loads_def)
qed

subsection \<open>Trimming\<close>

lemma lstrip_spaces: "\<forall>x \<in> set a. isspace x \<Longrightarrow> lstrip (a @ s) = lstrip s"
  unfolding lstrip_def by (rule dropWhile_append2) simp

lemma rstrip_spaces: "\<forall>x \<in> set b. isspace x \<Longrightarrow> rstrip (s @ b) = rstrip s"
proof -
  assume "\<forall>x \<in> set b. isspace x"
  then have "dropWhile isspace (rev b @ rev s) = dropWhile isspace (rev s)"
    by (intro dropWhile_append2) simp
  then show ?thesis
    by (simp add: rstrip_def)
qed

lemma rstrip_keeps:
  assumes "\<exists>x \<in> set s. \<not> isspace x"
  shows "rstrip (a @ s) = a @ rstrip s"
proof -
  from assms obtain x where "x \<in> set (rev s)" "\<not> isspace x"
    by auto
  then have "dropWhile isspace (rev s @ rev a) = dropWhile isspace (rev s) @ rev a"
    by (rule dropWhile_append1)
  then show ?thesis
    by (simp add: rstrip_def)
qed

lemma lstrip_keeps:
  assumes "\<exists>x \<in> set s. \<not> isspace x"
  shows "lstrip (s @ b) = lstrip s @ b"
proof -
  from assms obtain x where "x \<in> set s" "\<not> isspace x"
    by auto
  then show ?thesis
    unfolding lstrip_def by (rule dropWhile_append1)
qed

lemma rstrip_all_spaces: "\<forall>x \<in> set s. isspace x \<Longrightarrow> rstrip s = []"
  by (simp add: rstrip_def dropWhile_eq_Nil_conv)

lemma strip_pad:
  assumes "\<forall>x \<in> set a. isspace x" and "\<forall>x \<in> set b. isspace x"
  shows "strip (a @ s @ b) = strip s"
proof (cases "\<exists>x \<in> set s. \<not> isspace x")
  case True
  have "rstrip (a @ s @ b) = rstrip (a @ s)"
    using rstrip_spaces [OF assms(2), of "a @ s"] by simp
  also have "\<dots> = a @ rstrip s"
    using True by (rule rstrip_keeps)
  finally show ?thesis
    by (simp add: strip_def lstrip_spaces [OF assms(1)])
next
  case False
  then have "\<forall>x \<in> set (a @ s @ b). isspace x" "\<forall>x \<in> set s. isspace x"
    using assms by auto
  then show ?thesis
    by (simp only: strip_def rstrip_all_spaces)
qed

lemma strip_nonspace: "strip s \<noteq> [] \<Longrightarrow> \<exists>x \<in> set s. \<not> isspace x"
proof (rule ccontr)
  assume a: "strip s \<noteq> []" and "\<not> (\<exists>x \<in> set s. \<not> isspace x)"
  then have "rstrip s = []"
    by (simp add: rstrip_all_spaces)
  then have "strip s = []"
    by (simp add: strip_def lstrip_def)
  with a show False by simp
qed

lemma strip_ends:
  assumes "strip s \<noteq> []"
  shows "\<not> isspace (hd (strip s))" and "\<not> isspace (last (strip s))"
proof -
  show "\<not> isspace (hd (strip s))"
    using assms unfolding strip_def lstrip_def by (rule hd_dropWhile)
  have ne: "rstrip s \<noteq> []"
    using assms by (auto simp: strip_def lstrip_def)
  then have d: "dropWhile isspace (rev s) \<noteq> []"
    by (simp add: rstrip_def)
  have "last (rstrip s) = hd (dropWhile isspace (rev s))"
    using d by (simp add: rstrip_def last_rev)
  then have l: "\<not> isspace (last (rstrip s))"
    using hd_dropWhile [OF d] by simp
  obtain u where u: "rstrip s = u @ lstrip (rstrip s)"
    using takeWhile_dropWhile_id [of isspace "rstrip s"] by (metis lstrip_def)
  from assms have "lstrip (rstrip s) \<noteq> []"
    by (simp add: strip_def)
  with u have "last (rstrip s) = last (lstrip (rstrip s))"
    by (metis last_appendR)
  with l show "\<not> isspace (last (strip s))"
    by (simp add: strip_def)
qed

lemma strip_id:
  assumes "s \<noteq> []" and "\<not> isspace (hd s)" and "\<not> isspace (last s)"
  shows "strip s = s"
proof -
  from assms(1,3) have "dropWhile isspace (rev s) = rev s"
    by (cases "rev s") (simp_all add: last_rev [symmetric] hd_rev)
  then have "rstrip s = s"
    by (simp add: rstrip_def)
  moreover from assms(1,2) have "lstrip s = s"
    by (cases s) (simp_all add: lstrip_def)
  ultimately show ?thesis
    by (simp add: strip_def)
qed

lemma strip_strip: "strip (strip s) = strip s"
proof (cases "strip s = []")
  case True
  then show ?thesis by (simp add: strip_Nil)
next
  case False
  from strip_id [OF False strip_ends(1) [OF False] strip_ends(2) [OF False]] show ?thesis .
qed

lemma lstrip_strip:
  assumes "strip s \<noteq> []"
  shows "\<exists>v. lstrip s = strip s @ v \<and> (\<forall>x \<in> set v. isspace x)"
proof -
  obtain v where v: "s = rstrip s @ v" "\<forall>x \<in> set v. isspace x"
    using rstrip_append by blast
  have "\<exists>x \<in> set (rstrip s). \<not> isspace x"
  proof (rule ccontr)
    assume "\<not> (\<exists>x \<in> set (rstrip s). \<not> isspace x)"
    then have "lstrip (rstrip s) = []"
      by (simp add: lstrip_def)
    with assms show False by (simp add: strip_def)
  qed
  then have "lstrip (rstrip s @ v) = lstrip (rstrip s) @ v"
    by (rule lstrip_keeps)
  with v show ?thesis
    by (metis strip_def)
qed

subsection \<open>The shape of a valid JSON text\<close>

lemma json_loads_Nil: "json_loads [] = None"
  by (simp add: json_loads_def)

lemma lex_backtick: "lex (0x60 # s) = None"
proof -
  have "\<not> startswith (0x60 # s) (ascii ''null'')" "\<not> startswith (0x60 # s) (ascii ''true'')"
    "\<not> startswith (0x60 # s) (ascii ''false'')" "\<not> startswith (0x60 # s) (ascii ''NaN'')"
    "\<not> startswith (0x60 # s) (ascii ''Infinity'')"
    "\<not> startswith (0x60 # s) (ascii ''-Infinity'')"
    by (simp_all add: startswith_def ascii_def)
  moreover have "lex_number (0x60 # s) = None"
    by (simp add: lex_number_def isdigit_def)
  ultimately have "lex_scalar (0x60 # s) = None"
    by (simp add: lex_scalar_def)
  then show ?thesis
    by (simp add: jws_def)
qed

lemma valid_core:
  assumes "json_loads J = Some v"
  shows "strip J \<noteq> []" and "\<not> isspace (hd (strip J))" and "\<not> isspace (last (strip J))"
    and "\<not> startswith (strip J) fence" and "json_loads (strip J) = Some v"
proof -
  show l: "json_loads (strip J) = Some v"
    using assms by (rule json_loads_strip)
  then show ne: "strip J \<noteq> []"
    using json_loads_Nil by auto
  from strip_ends [OF ne] show "\<not> isspace (hd (strip J))" "\<not> isspace (last (strip J))" .
  show "\<not> startswith (strip J) fence"
  proof
    assume "startswith (strip J) fence"
    then obtain r where "strip J = 0x60 # r"
      by (cases "strip J") (auto simp: startswith_def fence_def)
    with l lex_backtick [of r] show False
      by (simp add: json_loads_def)
  qed
qed

subsection \<open>A text that parses to \<^verbatim>\<open>None\<close>\<close>

lemma complete_state:
  "complete v st = Some (m', st') \<Longrightarrow> v \<noteq> JNull \<or> st \<noteq> [] \<Longrightarrow>
   (\<forall>w. m' = PDone w \<longrightarrow> w \<noteq> JNull) \<and> ((\<forall>w. m' \<noteq> PDone w) \<longrightarrow> st' \<noteq> [])"
  by (cases "(v, st)" rule: complete.cases) auto

lemma step_state:
  assumes "step m st t = Some (m', st')"
    and "\<forall>w. m \<noteq> PDone w" and "st \<noteq> []"
  shows "(\<forall>w. m' = PDone w \<longrightarrow> w \<noteq> JNull) \<and> ((\<forall>w. m' \<noteq> PDone w) \<longrightarrow> st' \<noteq> [])"
proof -
  have sv: "start_value st t = Some (m', st') \<Longrightarrow> ?thesis"
    using assms(3) by (cases "(st, t)" rule: start_value.cases) (auto dest: complete_state)
  have ca: "close_arr st = Some (m', st') \<Longrightarrow> ?thesis"
    by (cases st rule: close_arr.cases) (auto dest: complete_state)
  have co: "close_obj st = Some (m', st') \<Longrightarrow> ?thesis"
    by (cases st rule: close_obj.cases) (auto dest: complete_state)
  have tk: "take_key k st = Some (m', st') \<Longrightarrow> ?thesis" for k
    by (cases "(k, st)" rule: take_key.cases) auto
  have ac: "after_comma st = Some (m', st') \<Longrightarrow> ?thesis"
    by (cases st rule: after_comma.cases) auto
  show ?thesis
  proof (cases m)
    case PVal
    with assms(1) have "start_value st t = Some (m', st')" by simp
    then show ?thesis by (rule sv)
  next
    case PValOrClose
    with assms(1) have "start_value st t = Some (m', st') \<or> close_arr st = Some (m', st')"
      by (simp split: if_splits)
    then show ?thesis using sv ca by blast
  next
    case PKeyOrClose
    with assms(1) have "close_obj st = Some (m', st') \<or> (\<exists>k. take_key k st = Some (m', st'))"
      by (auto split: token.splits)
    then show ?thesis using co tk by blast
  next
    case PKey
    with assms(1) have "\<exists>k. take_key k st = Some (m', st')"
      by (auto split: token.splits)
    then show ?thesis using tk by blast
  next
    case PColon
    with assms(1) have "m' = PVal" "st' = st"
      by (simp_all split: if_splits)
    with assms(3) show ?thesis by simp
  next
    case PSep
    with assms(1) have "after_comma st = Some (m', st') \<or> close_arr st = Some (m', st') \<or>
        close_obj st = Some (m', st')"
      by (simp split: token.splits)
    then show ?thesis using ac ca co by blast
  next
    case (PDone w)
    with assms(2) show ?thesis by simp
  qed
qed

lemma parse_not_null:
  "parse m st ts = Some v \<Longrightarrow>
   (\<forall>w. m = PDone w \<longrightarrow> w \<noteq> JNull) \<and> ((\<forall>w. m \<noteq> PDone w) \<longrightarrow> st \<noteq> []) \<Longrightarrow> v \<noteq> JNull"
proof (induction ts arbitrary: m st)
  case Nil
  then show ?case
    by (cases m) auto
next
  case (Cons t ts)
  from Cons.prems(1) obtain m' st' where s: "step m st t = Some (m', st')"
    and p: "parse m' st' ts = Some v"
    by (auto split: option.splits)
  have nd: "\<forall>w. m \<noteq> PDone w"
    using s by (cases m) auto
  with Cons.prems(2) have "st \<noteq> []"
    by simp
  from step_state [OF s nd this] Cons.IH [OF p] show ?case by blast
qed

lemma parse_container:
  assumes "parse PVal [] (t # ts) = Some v" and "t = TLBrace \<or> t = TLBrack"
  shows "v \<noteq> JNull"
proof -
  from assms obtain m st where "parse m st ts = Some v" "\<forall>w. m \<noteq> PDone w" "st \<noteq> []"
    by auto
  then show ?thesis
    using parse_not_null by blast
qed

lemma parse_null: "parse PVal [] ts = Some JNull \<Longrightarrow> ts = [TVal JNull]"
proof -
  assume a: "parse PVal [] ts = Some JNull"
  then obtain t ts' where ts: "ts = t # ts'"
    by (cases ts) auto
  show ?thesis
  proof (cases t)
    case (TVal w)
    with a ts have "parse (PDone w) [] ts' = Some JNull"
      by simp
    then have "ts' = []" "w = JNull"
      by (cases ts'; simp)+
    with ts TVal show ?thesis by simp
  next
    case (TStr s)
    with a ts have "parse (PDone (JStr s)) [] ts' = Some JNull"
      by simp
    then show ?thesis
      by (cases ts') simp_all
  next
    case TLBrace
    with a ts parse_container [of t ts' JNull] show ?thesis by simp
  next
    case TLBrack
    with a ts parse_container [of t ts' JNull] show ?thesis by simp
  qed (use a ts in simp_all)
qed

lemma lex_no_tokens: "lex s = Some [] \<Longrightarrow> \<forall>x \<in> set s. jws x"
proof (induction s rule: lex.induct)
  case 1
  then show ?case by simp
next
  case (2 x xs)
  show ?case
  proof (cases "jws x")
    case True
    with "2.prems" "2.IH"(1) show ?thesis by simp
  next
    case False
    with "2.prems" show ?thesis
      by (auto split: if_splits option.splits)
  qed
qed

lemma lex_scalar_null: "lex_scalar s = Some (JNull, r) \<Longrightarrow> s = ascii ''null'' @ r"
proof -
  assume a: "lex_scalar s = Some (JNull, r)"
  have "lex_number s \<noteq> Some (JNull, r)"
    by (auto simp: lex_number_def Let_def split: list.splits if_splits)
  with a have "startswith s (ascii ''null'')" "r = drop 4 s"
    by (auto simp: lex_scalar_def split: if_splits)
  moreover have "length (ascii ''null'') = 4"
    by (simp add: ascii_def)
  ultimately have "take 4 s = ascii ''null''" "r = drop 4 s"
    by (simp_all add: startswith_def)
  then show ?thesis
    using append_take_drop_id [of 4 s] by simp
qed

lemma lex_null_text: "lex t = Some [TVal JNull] \<Longrightarrow> 0x7B \<notin> set t \<and> 0x5B \<notin> set t"
proof (induction t rule: lex.induct)
  case 1
  then show ?case by simp
next
  case (2 x xs)
  show ?case
  proof (cases "jws x")
    case True
    with "2.prems" have "lex xs = Some [TVal JNull]"
      by simp
    with "2.IH"(1) True show ?thesis
      by (auto simp: jws_def)
  next
    case nw: False
    show ?thesis
    proof (cases "x = 0x7B \<or> x = 0x7D \<or> x = 0x5B \<or> x = 0x5D \<or> x = 0x3A \<or> x = 0x2C \<or> x = 0x22")
      case True
      with nw "2.prems" show ?thesis
        by (auto split: if_splits option.splits)
    next
      case False
      with nw "2.prems" obtain r where sc: "lex_scalar (x # xs) = Some (JNull, r)"
        and r: "lex r = Some []"
        by (auto split: option.splits)
      from lex_scalar_null [OF sc] have "x # xs = ascii ''null'' @ r" .
      moreover from lex_no_tokens [OF r] have "0x7B \<notin> set r \<and> 0x5B \<notin> set r"
        by (auto simp: jws_def)
      moreover have "0x7B \<notin> set (ascii ''null'') \<and> 0x5B \<notin> set (ascii ''null'')"
        by (simp add: ascii_def)
      ultimately show ?thesis
        by (metis Un_iff set_append)
    qed
  qed
qed

lemma json_null_text: "json_loads t = Some JNull \<Longrightarrow> 0x7B \<notin> set t \<and> 0x5B \<notin> set t"
proof -
  assume a: "json_loads t = Some JNull"
  then obtain ts where ts: "lex t = Some ts" "parse PVal [] ts = Some JNull"
    by (cases "lex t") (simp_all add: json_loads_def)
  from parse_null [OF ts(2)] ts(1) have "lex t = Some [TVal JNull]"
    by simp
  then show ?thesis
    by (rule lex_null_text)
qed

lemma extract_fallback_no_bracket:
  "0x7B \<notin> set t \<Longrightarrow> 0x5B \<notin> set t \<Longrightarrow> extract_fallback t = JNull"
  by (simp add: extract_fallback_def find_chr_def)

lemma extract_of_core:
  assumes "json_loads J = Some v" and "unfence text = strip J" and "text \<noteq> []"
  shows "extract_json_from_text text = v"
proof -
  have l: "json_loads (strip J) = Some v"
    using assms(1) by (rule json_loads_strip)
  then have d: "safe_json_loads (strip J) = v"
    by (simp add: safe_json_loads_def)
  show ?thesis
  proof (cases "v = JNull")
    case False
    with d assms(2,3) show ?thesis
      by (simp add: extract_json_from_text_def)
  next
    case True
    with l have "0x7B \<notin> set (strip J) \<and> 0x5B \<notin> set (strip J)"
      using json_null_text by simp
    then have "extract_fallback (strip J) = JNull"
      by (simp add: extract_fallback_no_bracket)
    with True d assms(2,3) show ?thesis
      by (simp add: extract_json_from_text_def)
  qed
qed

subsection \<open>Removing a fence\<close>

lemma space_not_tagchar: "isspace x \<Longrightarrow> \<not> tagchar x"
  by (auto simp: isspace_def tagchar_def)

lemma fence_plain: "\<forall>x \<in> set fence. \<not> isspace x" "fence \<noteq> []" "hd fence = 0x60" "last fence = 0x60"
  "length fence = 3"
  by (simp_all add: fence_def isspace_def)

lemma sub_fence_open_fence:
  assumes "\<forall>x \<in> set tag. tagchar x" and "\<forall>x \<in> set w. isspace x"
    and "w \<noteq> [] \<or> (rest \<noteq> [] \<and> \<not> tagchar (hd rest))"
  shows "sub_fence_open (fence @ tag @ w @ rest) = lstrip rest"
proof -
  have s: "startswith (fence @ tag @ w @ rest) fence"
    by (simp add: startswith_def)
  have d: "drop 3 (fence @ tag @ w @ rest) = tag @ w @ rest"
    by (simp add: fence_def)
  have "dropWhile tagchar (tag @ w @ rest) = dropWhile tagchar (w @ rest)"
    using assms(1) by (intro dropWhile_append2) simp
  also have "\<dots> = w @ rest"
  proof (cases w)
    case Nil
    with assms(3) show ?thesis
      by (cases rest) simp_all
  next
    case (Cons x xs)
    with assms(2) show ?thesis
      by (auto dest: space_not_tagchar)
  qed
  finally have "dropWhile tagchar (tag @ w @ rest) = w @ rest" .
  moreover have "dropWhile isspace (w @ rest) = dropWhile isspace rest"
    using assms(2) by (intro dropWhile_append2) simp
  ultimately show ?thesis
    using s d by (simp add: sub_fence_open_def lstrip_def)
qed

lemma sub_fence_close_spaces:
  assumes "\<forall>x \<in> set w. isspace x"
  shows "sub_fence_close (w @ fence) = []"
proof -
  have "dropWhile isspace (w @ fence) = dropWhile isspace fence"
    using assms by (intro dropWhile_append2) simp
  then have h: "fence_close_here (w @ fence)"
    by (simp add: fence_close_here_def fence_def isspace_def)
  have l: "last (w @ fence) \<noteq> 0x0A"
    by (simp add: fence_def)
  obtain c cs where c: "w @ fence = c # cs"
    by (cases "w @ fence") (simp_all add: fence_def)
  show ?thesis
    using h l unfolding c by simp
qed

lemma dropWhile_keeps:
  "\<not> P z \<Longrightarrow> \<exists>r0. dropWhile P (a @ z # b) = r0 @ z # b"
proof (induction a)
  case Nil
  then show ?case by simp
next
  case (Cons x a)
  then obtain r0 where "dropWhile P (a @ z # b) = r0 @ z # b"
    by blast
  then show ?case
    by (cases "P x") (auto intro: exI [of _ "x # a"])
qed

lemma sub_fence_close_core:
  assumes "\<not> isspace z" and "\<forall>x \<in> set w. isspace x"
  shows "sub_fence_close (pre @ z # w @ fence) = pre @ [z]"
proof (induction pre)
  case Nil
  have "dropWhile isspace (z # w @ fence) = z # w @ fence"
    using assms(1) by simp
  moreover have "z # w @ fence \<noteq> fence" "z # w @ fence \<noteq> fence @ [0x0A]"
    by (auto simp: fence_def)
  ultimately have "\<not> fence_close_here (z # w @ fence)"
    by (simp add: fence_close_here_def)
  then show ?case
    using sub_fence_close_spaces [OF assms(2)] by simp
next
  case (Cons x pre)
  obtain r0 where r: "dropWhile isspace ((x # pre) @ z # w @ fence) = r0 @ z # w @ fence"
    using dropWhile_keeps [of isspace z "x # pre" "w @ fence", OF assms(1)] by blast
  have "length (r0 @ z # w @ fence) \<ge> 4" "last (r0 @ z # w @ fence) = 0x60"
    by (simp_all add: fence_def)
  then have "r0 @ z # w @ fence \<noteq> fence" "r0 @ z # w @ fence \<noteq> fence @ [0x0A]"
    by (auto simp: fence_def)
  with r have "\<not> fence_close_here ((x # pre) @ z # w @ fence)"
    by (simp add: fence_close_here_def)
  then have "\<not> fence_close_here (x # pre @ z # w @ fence)"
    by simp
  with Cons show ?case
    by simp
qed

lemma unfence_plain:
  assumes "json_loads J = Some v"
    and "\<forall>x \<in> set a. isspace x" and "\<forall>x \<in> set b. isspace x"
  shows "unfence (a @ J @ b) = strip J"
  using strip_pad [OF assms(2,3), of J] valid_core(4) [OF assms(1)]
  by (simp add: unfence_def)

lemma unfence_fenced:
  assumes "json_loads J = Some v"
    and "\<forall>x \<in> set a. isspace x" and "\<forall>x \<in> set b. isspace x"
    and "\<forall>x \<in> set tag. tagchar x"
    and "\<forall>x \<in> set w1. isspace x" and "w1 \<noteq> [] \<or> \<not> tagchar (hd J)"
    and "\<forall>x \<in> set w2. isspace x"
  shows "unfence (a @ fence @ tag @ w1 @ J @ w2 @ fence @ b) = strip J"
proof -
  let ?X = "fence @ tag @ w1 @ J @ w2 @ fence"
  note core = valid_core [OF assms(1)]
  have X: "?X \<noteq> []" "\<not> isspace (hd ?X)" "\<not> isspace (last ?X)"
    by (simp_all add: fence_def isspace_def)
  have "strip (a @ ?X @ b) = strip ?X"
    using assms(2,3) by (rule strip_pad)
  also have "\<dots> = ?X"
    using X by (rule strip_id)
  finally have t: "strip (a @ fence @ tag @ w1 @ J @ w2 @ fence @ b) = ?X"
    by simp
  have sw: "startswith ?X fence"
    by (simp add: startswith_def)
  have J: "\<exists>x \<in> set J. \<not> isspace x"
    using core(1) by (rule strip_nonspace)
  obtain v' where v': "lstrip J = strip J @ v'" "\<forall>x \<in> set v'. isspace x"
    using lstrip_strip [OF core(1)] by blast
  obtain pre z where pz: "strip J = pre @ [z]"
    using core(1) by (metis rev_exhaust)
  with core(3) have z: "\<not> isspace z"
    by simp
  have Jn: "J \<noteq> []"
    using J by auto
  then have "w1 \<noteq> [] \<or> (J @ w2 @ fence \<noteq> [] \<and> \<not> tagchar (hd (J @ w2 @ fence)))"
    using assms(6) by simp
  with assms(4,5) have "sub_fence_open ?X = lstrip (J @ w2 @ fence)"
    by (rule sub_fence_open_fence)
  also have "\<dots> = lstrip J @ w2 @ fence"
    using J by (rule lstrip_keeps)
  also have "\<dots> = pre @ z # (v' @ w2) @ fence"
    using v'(1) pz by simp
  finally have "sub_fence_close (sub_fence_open ?X) = sub_fence_close (pre @ z # (v' @ w2) @ fence)"
    by simp
  also have "\<dots> = pre @ [z]"
    using z v'(2) assms(7) by (intro sub_fence_close_core) auto
  finally have "strip (sub_fence_close (sub_fence_open ?X)) = strip J"
    using pz strip_strip [of J] by simp
  with t sw show ?thesis
    by (simp add: unfence_def)
qed

lemma true_loads: "json_loads (ascii ''true'') = Some (JBool True)"
  by (simp add: json_loads_def ascii_def jws_def lex_scalar_def startswith_def)

lemma a1_loads: "json_loads (ascii ''{\"a\":1}'') = Some (JObj [(ascii ''a'', JInt 1)])"
  by (simp add: json_loads_def ascii_def jws_def lex_scalar_def lex_number_def startswith_def
      isdigit_def frac_part_def exp_part_def dec_def)

text \<open>
  Claim C3, as stated, fails for a scalar between two fences on one line: in
  \<^verbatim>\<open>```true```\<close> the pattern for the opening fence takes \<^verbatim>\<open>true\<close> as the language tag, the
  rest is the closing fence, and the extractor returns \<^verbatim>\<open>None\<close>, while \<^verbatim>\<open>json.loads("true")\<close>
  is \<^verbatim>\<open>True\<close>.
\<close>

theorem fenced_scalar_counterexample:
  "json_loads (ascii ''true'') = Some (JBool True) \<and>
   extract_json_from_text (fence @ ascii ''true'' @ fence) = JNull"
proof -
  have "unfence (fence @ ascii ''true'' @ fence) = []"
    by (simp add: unfence_def sub_fence_open_def fence_close_here_def fence_def ascii_def
        strip_def lstrip_def rstrip_def isspace_def tagchar_def startswith_def)
  then have "extract_json_from_text (fence @ ascii ''true'' @ fence) = JNull"
    by (simp add: extract_json_from_text_def safe_json_loads_Nil extract_fallback_def
        find_chr_def fence_def)
  with true_loads show ?thesis
    by simp
qed

text \<open>
  Claim C3 (amended). Let \<open>J\<close> be a valid JSON text: \<^verbatim>\<open>json.loads\<close> parses it, to the value
  \<open>v\<close>. The extractor returns \<open>v\<close> for \<open>J\<close> padded with arbitrary whitespace, and for \<open>J\<close>
  wrapped in a fence (whitespace, the opening fence with an optional language tag, \<open>J\<close>,
  the closing fence, whitespace, with optional whitespace around \<open>J\<close>), provided that
  whitespace (such as a line break) follows the opening fence and its tag, or \<open>J\<close> does
  not begin with a character that a tag may contain (a letter, a digit, \<^verbatim>\<open>_\<close> or \<^verbatim>\<open>-\<close>).
  The text \<^verbatim>\<open>null\<close> parses to \<^verbatim>\<open>None\<close>, which is also what the extractor returns for it.
\<close>

theorem json_extractor_roundtrip:
  assumes "json_loads J = Some v"
    and "\<forall>x \<in> set a. isspace x" and "\<forall>x \<in> set b. isspace x"
    and "\<forall>x \<in> set tag. tagchar x"
    and "\<forall>x \<in> set w1. isspace x" and "w1 \<noteq> [] \<or> \<not> tagchar (hd J)"
    and "\<forall>x \<in> set w2. isspace x"
  shows "extract_json_from_text (a @ J @ b) = v \<and>
         extract_json_from_text (a @ fence @ tag @ w1 @ J @ w2 @ fence @ b) = v"
proof -
  have J: "J \<noteq> []"
    using assms(1) json_loads_Nil by auto
  have "extract_json_from_text (a @ J @ b) = v"
    using assms(1) unfence_plain [OF assms(1,2,3)] J by (intro extract_of_core) simp_all
  moreover have "extract_json_from_text (a @ fence @ tag @ w1 @ J @ w2 @ fence @ b) = v"
    using assms(1) unfence_fenced [OF assms] J by (intro extract_of_core) simp_all
  ultimately show ?thesis by simp
qed

theorem json_extractor_roundtrip_witness:
  "extract_json_from_text ([0x20, 0x0A] @ ascii ''{\"a\":1}'' @ [0x09]) =
     JObj [(ascii ''a'', JInt 1)] \<and>
   extract_json_from_text
     ([0x20, 0x0A] @ fence @ ascii ''json'' @ [0x0A] @ ascii ''{\"a\":1}'' @ [0x0A] @ fence @ [0x09]) =
     JObj [(ascii ''a'', JInt 1)]"
proof -
  have h: "\<forall>x \<in> set [0x20, 0x0A]. isspace x" "\<forall>x \<in> set [0x09]. isspace x"
    "\<forall>x \<in> set (ascii ''json''). tagchar x" "\<forall>x \<in> set [0x0A]. isspace x"
    "[0x0A::nat] \<noteq> [] \<or> \<not> tagchar (hd (ascii ''{\"a\":1}''))"
    by (simp_all add: isspace_def tagchar_def ascii_def)
  from json_extractor_roundtrip [OF a1_loads h(1) h(2) h(3) h(4) h(5) h(4)]
  show ?thesis .
qed

subsection \<open>The search from the earliest bracket\<close>

lemma takeWhile_conj_length:
  "length (takeWhile (\<lambda>c. P c \<and> Q c) t) = min (length (takeWhile P t)) (length (takeWhile Q t))"
  by (induction t) auto

lemma takeWhile_absent: "a \<notin> set t \<Longrightarrow> takeWhile (\<lambda>x. x \<noteq> a) t = t"
  by (induction t) auto

lemma takeWhile_present: "a \<in> set t \<Longrightarrow> length (takeWhile (\<lambda>x. x \<noteq> a) t) < length t"
  by (induction t) auto

lemma start_earliest:
  assumes "0x7B \<in> set t \<or> 0x5B \<in> set t"
  shows "nat (if find_chr 0x7B t \<noteq> - 1 \<and> (find_chr 0x5B t = - 1 \<or> find_chr 0x7B t < find_chr 0x5B t)
              then find_chr 0x7B t else find_chr 0x5B t) = earliest_bracket t"
proof -
  let ?a = "length (takeWhile (\<lambda>x. x \<noteq> (0x7B::nat)) t)"
  let ?b = "length (takeWhile (\<lambda>x. x \<noteq> (0x5B::nat)) t)"
  have e: "earliest_bracket t = min ?a ?b"
    unfolding earliest_bracket_def by (rule takeWhile_conj_length)
  consider (both) "0x7B \<in> set t" "0x5B \<in> set t" | (obj) "0x7B \<in> set t" "0x5B \<notin> set t"
    | (arr) "0x7B \<notin> set t" "0x5B \<in> set t"
    using assms by blast
  then show ?thesis
  proof cases
    case both
    then show ?thesis
      unfolding e by (simp add: find_chr_def min_def)
  next
    case obj
    then have "?b = length t" "?a < length t"
      by (simp_all add: takeWhile_absent takeWhile_present)
    with obj show ?thesis
      unfolding e by (simp add: find_chr_def min_def)
  next
    case arr
    then have "?a = length t" "?b < length t"
      by (simp_all add: takeWhile_absent takeWhile_present)
    with arr show ?thesis
      unfolding e by (simp add: find_chr_def min_def)
  qed
qed

lemma earliest_bracket_hd:
  assumes "0x7B \<in> set t \<or> 0x5B \<in> set t"
  shows "drop (earliest_bracket t) t \<noteq> []"
    and "hd (drop (earliest_bracket t) t) = 0x7B \<or> hd (drop (earliest_bracket t) t) = 0x5B"
proof -
  let ?P = "\<lambda>c::nat. c \<noteq> 0x7B \<and> c \<noteq> 0x5B"
  have d: "drop (earliest_bracket t) t = dropWhile ?P t"
    unfolding earliest_bracket_def by (rule dropWhile_eq_drop [symmetric])
  from assms have n: "dropWhile ?P t \<noteq> []"
    by (auto simp: dropWhile_eq_Nil_conv)
  then show "drop (earliest_bracket t) t \<noteq> []"
    using d by simp
  from n have "\<not> ?P (hd (dropWhile ?P t))"
    by (rule hd_dropWhile)
  then show "hd (drop (earliest_bracket t) t) = 0x7B \<or> hd (drop (earliest_bracket t) t) = 0x5B"
    using d by auto
qed

lemma bracket_not_space: "c = 0x7B \<or> c = 0x5B \<Longrightarrow> \<not> isspace c"
  by (auto simp: isspace_def)

lemma strip_hd:
  assumes "s \<noteq> []" and "\<not> isspace (hd s)"
  shows "strip s \<noteq> []" and "hd (strip s) = hd s"
proof -
  obtain x xs where s: "s = x # xs"
    using assms(1) by (cases s) auto
  with assms(2) have x: "\<not> isspace x"
    by simp
  have "rstrip ([x] @ xs) = [x] @ rstrip xs \<or> rstrip ([x] @ xs) = [x]"
  proof (cases "\<exists>y \<in> set xs. \<not> isspace y")
    case True
    then show ?thesis
      using rstrip_keeps [of xs "[x]"] by simp
  next
    case False
    then have "rstrip ([x] @ xs) = rstrip [x]"
      by (intro rstrip_spaces) simp
    with x show ?thesis
      by (simp add: rstrip_def)
  qed
  then obtain r where "rstrip s = x # r"
    using s by auto
  with x have "strip s = x # r"
    by (simp add: strip_def lstrip_def)
  with s show "strip s \<noteq> []" and "hd (strip s) = hd s"
    by simp_all
qed

lemma json_loads_bracket:
  assumes "s \<noteq> []" and "hd s = 0x7B \<or> hd s = 0x5B"
  shows "json_loads s \<noteq> Some JNull"
proof
  assume "json_loads s = Some JNull"
  then have "0x7B \<notin> set s \<and> 0x5B \<notin> set s"
    by (rule json_null_text)
  with assms show False
    by (cases s) auto
qed

lemma scan_candidates_spec:
  assumes "c \<noteq> []" and "hd c = 0x7B \<or> hd c = 0x5B"
  shows "i + k \<le> length c \<Longrightarrow>
         scan_candidates c i k =
         spec_first_parse (map (\<lambda>j. strip (take (length c - j) c)) [i..<i + k])"
proof (induction k arbitrary: i)
  case 0
  then show ?case by simp
next
  case (Suc k)
  let ?chunk = "strip (take (length c - i) c)"
  from Suc.prems have i: "i < length c"
    by simp
  with assms(1) have t: "take (length c - i) c \<noteq> []" "hd (take (length c - i) c) = hd c"
    by (cases c; simp)+
  with assms(2) have "\<not> isspace (hd (take (length c - i) c))"
    by (simp add: bracket_not_space)
  with t(1) have ch: "?chunk \<noteq> []" "hd ?chunk = hd (take (length c - i) c)"
    by (rule strip_hd)+
  with t(2) assms(2) have nn: "json_loads ?chunk \<noteq> Some JNull"
    by (intro json_loads_bracket) simp_all
  have u: "[i..<i + Suc k] = i # [Suc i..<Suc i + k]"
    by (simp add: upt_rec)
  have ih: "scan_candidates c (Suc i) k =
            spec_first_parse (map (\<lambda>j. strip (take (length c - j) c)) [Suc i..<Suc i + k])"
    using Suc.prems by (intro Suc.IH) simp
  show ?case
  proof (cases "json_loads ?chunk")
    case None
    then have "safe_json_loads ?chunk = JNull"
      by (simp add: safe_json_loads_def)
    with ch(1) ih None show ?thesis
      unfolding u by (simp add: Let_def)
  next
    case (Some v)
    with nn have "v \<noteq> JNull"
      by auto
    with Some have "safe_json_loads ?chunk = v" "safe_json_loads ?chunk \<noteq> JNull"
      by (simp_all add: safe_json_loads_def)
    with ch(1) Some show ?thesis
      unfolding u by (simp add: Let_def)
  qed
qed

lemma unfence_stripped: "strip (unfence text) = unfence text"
  by (simp add: unfence_def Let_def strip_strip)

lemma extract_fallback_spec:
  assumes "strip t = t"
  shows "extract_fallback t = spec_fallback_trimmed t"
proof (cases "0x7B \<notin> set t \<and> 0x5B \<notin> set t")
  case True
  then show ?thesis
    by (simp add: extract_fallback_no_bracket spec_fallback_trimmed_def)
next
  case False
  then have b: "0x7B \<in> set t \<or> 0x5B \<in> set t"
    by blast
  let ?c = "drop (earliest_bracket t) t"
  note c = earliest_bracket_hd [OF b]
  from b have tn: "t \<noteq> []"
    by auto
  with assms have "strip t \<noteq> []"
    by simp
  then have "\<not> isspace (last (strip t))"
    by (rule strip_ends(2))
  with assms have "\<not> isspace (last t)"
    by simp
  moreover have "last ?c = last t"
    using c(1) by (simp add: last_drop)
  ultimately have l: "\<not> isspace (last ?c)"
    by simp
  have sc: "strip ?c = ?c"
    using c(1) bracket_not_space [OF c(2)] l by (rule strip_id)
  have "scan_candidates ?c 0 (min 4000 (length ?c)) =
        spec_first_parse (map (\<lambda>j. strip (take (length ?c - j) ?c)) [0..<0 + min 4000 (length ?c)])"
    using c by (intro scan_candidates_spec) simp_all
  also have "\<dots> = spec_first_parse (map strip (spec_candidates ?c))"
    by (simp add: spec_candidates_def comp_def)
  finally have s: "scan_candidates ?c 0 (min 4000 (length ?c)) =
                   spec_first_parse (map strip (spec_candidates ?c))" .
  have f: "find_chr 0x7B t \<noteq> - 1 \<or> find_chr 0x5B t \<noteq> - 1"
    using b by (auto simp: find_chr_def)
  have "extract_fallback t = scan_candidates ?c 0 (min 4000 (length ?c))"
    using f start_earliest [OF b] sc unfolding extract_fallback_def Let_def
    by (simp only: if_False de_Morgan_conj simp_thms split: if_splits) auto
  with s b show ?thesis
    by (auto simp add: spec_fallback_trimmed_def)
qed

lemma extract_search:
  "safe_json_loads (unfence text) = JNull \<Longrightarrow>
   extract_json_from_text text = spec_fallback_trimmed (unfence text)"
proof (cases "text = []")
  case True
  then show ?thesis
    by (simp add: extract_json_from_text_def unfence_def strip_Nil startswith_def fence_def
        spec_fallback_trimmed_def)
next
  case False
  assume "safe_json_loads (unfence text) = JNull"
  with False show ?thesis
    by (simp add: extract_json_from_text_def Let_def extract_fallback_spec unfence_stripped)
qed

subsection \<open>A long run of vertical tabs\<close>

lemma lex_vtab: "lex (0x0B # r) = None"
proof -
  have "\<not> startswith (0x0B # r) (ascii ''null'')" "\<not> startswith (0x0B # r) (ascii ''true'')"
    "\<not> startswith (0x0B # r) (ascii ''false'')" "\<not> startswith (0x0B # r) (ascii ''NaN'')"
    "\<not> startswith (0x0B # r) (ascii ''Infinity'')"
    "\<not> startswith (0x0B # r) (ascii ''-Infinity'')"
    by (simp_all add: startswith_def ascii_def)
  moreover have "lex_number (0x0B # r) = None"
    by (simp add: lex_number_def isdigit_def)
  ultimately have "lex_scalar (0x0B # r) = None"
    by (simp add: lex_scalar_def)
  then show ?thesis
    by (simp add: jws_def)
qed

lemma braces_vtab: "json_loads (0x7B # 0x7D # 0x0B # r) = None"
proof -
  have "lex (0x7D # 0x0B # r) = None"
    using lex_vtab [of r] lex.simps(2) [of "0x7D" "0x0B # r"] by (simp add: jws_def del: lex.simps)
  then have "lex (0x7B # 0x7D # 0x0B # r) = None"
    using lex.simps(2) [of "0x7B" "0x7D # 0x0B # r"] by (simp add: jws_def del: lex.simps)
  then show ?thesis
    by (simp add: json_loads_def del: lex.simps)
qed

lemma braces_loads: "json_loads [0x7B, 0x7D] = Some (JObj [])"
  by (simp add: json_loads_def jws_def)

lemma take_braces_vtab:
  assumes "3 \<le> m" and "1 \<le> n"
  shows "json_loads (take m (0x7B # 0x7D # replicate n 0x0B @ [0x78])) = None"
proof -
  from assms(1) have "m = Suc (Suc (Suc (m - 3)))"
    by simp
  then obtain m' where m: "m = Suc (Suc (Suc m'))" ..
  from assms(2) obtain n' where n: "n = Suc n'"
    by (cases n) auto
  have "take m (0x7B # 0x7D # replicate n 0x0B @ [0x78::nat]) =
        0x7B # 0x7D # 0x0B # take m' (replicate n' 0x0B @ [0x78])"
    unfolding m n by simp
  then show ?thesis
    by (simp only: braces_vtab)
qed

lemma spec_first_parse_none: "\<forall>s \<in> set ss. json_loads s = None \<Longrightarrow> spec_first_parse ss = JNull"
  by (induction ss) simp_all

lemma vtab_text_unfence:
  "unfence (0x7B # 0x7D # replicate n 0x0B @ [0x78]) = 0x7B # 0x7D # replicate n 0x0B @ [0x78]"
proof -
  let ?T = "0x7B # 0x7D # replicate n 0x0B @ [0x78::nat]"
  have "strip ?T = ?T"
    by (rule strip_id) (simp_all add: isspace_def)
  moreover have "\<not> startswith ?T fence"
    by (simp add: startswith_def fence_def)
  ultimately show ?thesis
    by (simp add: unfence_def)
qed

lemma vtab_text_direct:
  assumes "1 \<le> n"
  shows "json_loads (0x7B # 0x7D # replicate n 0x0B @ [0x78]) = None"
proof -
  have "json_loads (take (n + 3) (0x7B # 0x7D # replicate n 0x0B @ [0x78])) = None"
    using _ assms by (rule take_braces_vtab) simp
  then show ?thesis
    by simp
qed

lemma vtab_text_spec:
  assumes "4000 \<le> n"
  shows "spec_fallback (0x7B # 0x7D # replicate n 0x0B @ [0x78]) = JNull"
proof -
  let ?T = "0x7B # 0x7D # replicate n 0x0B @ [0x78::nat]"
  have e: "earliest_bracket ?T = 0"
    by (simp add: earliest_bracket_def)
  have l: "length ?T = n + 3"
    by simp
  have "\<forall>s \<in> set (spec_candidates ?T). json_loads s = None"
  proof
    fix s
    assume "s \<in> set (spec_candidates ?T)"
    then obtain i where i: "i < min 4000 (n + 3)" "s = take (n + 3 - i) ?T"
      unfolding spec_candidates_def l by auto
    with assms have "3 \<le> n + 3 - i" "1 \<le> n"
      by simp_all
    then show "json_loads s = None"
      unfolding i(2) by (rule take_braces_vtab)
  qed
  then have "spec_first_parse (spec_candidates ?T) = JNull"
    by (rule spec_first_parse_none)
  with e show ?thesis
    by (simp add: spec_fallback_def)
qed

lemma vtab_text_code:
  assumes "1 \<le> n"
  shows "extract_json_from_text (0x7B # 0x7D # replicate n 0x0B @ [0x78]) = JObj []"
proof -
  let ?T = "0x7B # 0x7D # replicate n 0x0B @ [0x78::nat]"
  let ?k = "min 4000 (n + 3)"
  have e: "earliest_bracket ?T = 0"
    by (simp add: earliest_bracket_def)
  have l: "length ?T = n + 3"
    by simp
  have s0: "strip ?T = ?T"
    by (rule strip_id) (simp_all add: isspace_def)
  have "take (n + 3 - Suc 0) ?T = [] @ [0x7B, 0x7D] @ replicate n 0x0B"
    by simp
  moreover have "strip ([] @ [0x7B, 0x7D] @ replicate n 0x0B) = strip [0x7B, 0x7D]"
    by (rule strip_pad) (simp_all add: isspace_def)
  moreover have "strip [0x7B, 0x7D] = [0x7B, 0x7D]"
    by (rule strip_id) (simp_all add: isspace_def)
  ultimately have s1: "strip (take (n + 3 - Suc 0) ?T) = [0x7B, 0x7D]"
    by simp
  have "[0..<?k] = 0 # [Suc 0..<?k]"
    by (rule upt_conv_Cons) simp
  moreover have "[Suc 0..<?k] = Suc 0 # [Suc (Suc 0)..<?k]"
    by (rule upt_conv_Cons) simp
  ultimately have u: "[0..<?k] = 0 # Suc 0 # [Suc (Suc 0)..<?k]"
    by simp
  have "map strip (spec_candidates ?T) =
        strip (take (n + 3 - 0) ?T) # strip (take (n + 3 - Suc 0) ?T) #
        map strip (map (\<lambda>i. take (n + 3 - i) ?T) [Suc (Suc 0)..<?k])"
    unfolding spec_candidates_def l u by (simp only: list.map)
  also have "take (n + 3 - 0) ?T = ?T"
    by simp
  finally have "spec_first_parse (map strip (spec_candidates ?T)) = JObj []"
    unfolding s0 s1 by (simp add: vtab_text_direct [OF assms] braces_loads)
  with e have "spec_fallback_trimmed ?T = JObj []"
    by (simp add: spec_fallback_trimmed_def)
  moreover have "safe_json_loads (unfence ?T) = JNull"
    unfolding vtab_text_unfence by (simp add: safe_json_loads_def vtab_text_direct [OF assms])
  ultimately show ?thesis
    using extract_search [of ?T] unfolding vtab_text_unfence by simp
qed

lemma vtab_4000: "(1::nat) \<le> 4000" "(4000::nat) \<le> 4000"
  by simp_all

text \<open>
  Claim C7, as stated, fails where more than 4000 attempts of the stated search would be
  needed but whitespace that \<^verbatim>\<open>json.loads\<close> rejects follows the JSON: the text \<^verbatim>\<open>{}\<close>, 4000
  vertical tabs, \<^verbatim>\<open>x\<close>. The direct parse fails. None of the 4000 candidates of the stated
  search parses (the shortest is \<^verbatim>\<open>{}\<close> with two vertical tabs), so the claim gives
  absence. The code trims each candidate with \<^verbatim>\<open>strip()\<close>: its second candidate is \<^verbatim>\<open>{}\<close>, and
  it returns the empty object.
\<close>

theorem search_without_trim_counterexample:
  "json_loads (unfence (0x7B # 0x7D # replicate 4000 0x0B @ [0x78])) = None \<and>
   spec_fallback (unfence (0x7B # 0x7D # replicate 4000 0x0B @ [0x78])) = JNull \<and>
   extract_json_from_text (0x7B # 0x7D # replicate 4000 0x0B @ [0x78]) = JObj []"
  unfolding vtab_text_unfence
  by (simp only: vtab_text_direct [OF vtab_4000(1)] vtab_text_spec [OF vtab_4000(2)]
      vtab_text_code [OF vtab_4000(1)] simp_thms)

text \<open>
  Claim C7 (amended). Let the direct parse of the whole text (trimmed, a fence removed)
  fail or give \<^verbatim>\<open>None\<close>. If that text contains neither \<^verbatim>\<open>{\<close> nor \<^verbatim>\<open>[\<close>, the extractor returns
  absence. Otherwise it starts at the earliest \<^verbatim>\<open>{\<close> or \<^verbatim>\<open>[\<close> and tries successively shorter
  candidates: attempt \<open>i\<close> (from 0) is the text from there without its last \<open>i\<close>
  characters, trimmed of surrounding whitespace; there are at most 4000 attempts, and no
  more than the text from there has characters. It returns the value of the first
  candidate that parses, and absence when none does.
\<close>

theorem fallback_search:
  assumes "safe_json_loads (unfence text) = JNull"
  shows "extract_json_from_text text = spec_fallback_trimmed (unfence text)"
  using assms by (rule extract_search)

theorem fallback_search_witness:
  "safe_json_loads (unfence (ascii ''Sure: [1] ok'')) = JNull \<and>
   extract_json_from_text (ascii ''Sure: [1] ok'') =
     spec_fallback_trimmed (unfence (ascii ''Sure: [1] ok'')) \<and>
   spec_fallback_trimmed (unfence (ascii ''Sure: [1] ok'')) = JArr [JInt 1]"
proof -
  have u: "unfence (ascii ''Sure: [1] ok'') = ascii ''Sure: [1] ok''"
    by (simp add: unfence_def ascii_def strip_def lstrip_def rstrip_def isspace_def
        startswith_def fence_def)
  have d: "safe_json_loads (unfence (ascii ''Sure: [1] ok'')) = JNull"
    unfolding u
    by (simp add: safe_json_loads_def json_loads_def ascii_def jws_def lex_scalar_def
        lex_number_def startswith_def isdigit_def)
  have v: "spec_fallback_trimmed (unfence (ascii ''Sure: [1] ok'')) = JArr [JInt 1]"
    unfolding u
    by (simp add: spec_fallback_trimmed_def earliest_bracket_def spec_candidates_def ascii_def
        upt_rec json_loads_def jws_def lex_scalar_def lex_number_def startswith_def isdigit_def
        frac_part_def exp_part_def dec_def strip_def lstrip_def rstrip_def isspace_def)
  from fallback_search [OF d] d v show ?thesis
    by simp
qed

end
